theory Spec2Isabelle
  imports Main "HOL-Library.Word" "HOL-Library.Multiset" "HOL-Library.Char_ord"
    "HOL-Library.List_Lexorder"
begin

unbundle bit_operations_syntax

section \<open>Tiles and fixed geometry\<close>

text \<open>
  A \<open>geo::tile\<close> carries three unsigned 32-bit fields \<open>x_\<close>, \<open>y_\<close>, \<open>z_\<close>.
  The sources build it as \<open>geo::tile{x, y, z}\<close>. A name cannot end in an underscore
  here, so the fields of the source's structs lose theirs, with the struct's name in front
  where the bare name would be too short.
\<close>

record tile =
  tile_x :: "32 word"
  tile_y :: "32 word"
  tile_z :: "32 word"

definition mk_tile :: "32 word \<Rightarrow> 32 word \<Rightarrow> 32 word \<Rightarrow> tile" where
  "mk_tile x y z = \<lparr>tile_x = x, tile_y = y, tile_z = z\<rparr>"

text \<open>
  Modelled from the spec: the fixed geometry types, declared in
  \<open>tiles/fixed/fixed_geometry.h\<close>, which is not among the sources. A fixed coordinate is
  a signed integer; the clip test passes \<open>int64_t\<close> bounds, so a coordinate is a 64-bit
  word read in two's complement. A geometry is null, a point, a polyline (a sequence of
  lines, \<open>polyline.geometry_\<close>) or a polygon (an outer ring and its inner rings).
\<close>

type_synonym fixed_coord_t = "64 word"

record fixed_xy =
  x_c :: fixed_coord_t
  y_c :: fixed_coord_t

datatype fixed_geometry =
    Fixed_null
  | Fixed_point fixed_xy
  | Fixed_polyline "fixed_xy list list"
  | Fixed_polygon "fixed_xy list" "fixed_xy list list"

section \<open>shift\<close>

text \<open>
  \<open>shift(fixed_xy&, delta_z)\<close> replaces both coordinates by \<open>c >> delta_z\<close>; on a signed
  64-bit value that is the arithmetic right shift. The model is meant for
  \<open>delta_z < 64\<close> only (a wider shift is undefined in the source); every statement below
  keeps \<open>z \<le> 20\<close>, hence \<open>delta_z \<le> 20\<close>.
\<close>

definition shift_xy :: "fixed_xy \<Rightarrow> 32 word \<Rightarrow> fixed_xy" where
  "shift_xy point delta_z =
     \<lparr>x_c = signed_drop_bit (unat delta_z) (x_c point),
      y_c = signed_drop_bit (unat delta_z) (y_c point)\<rparr>"

definition shift_polyline :: "fixed_xy list list \<Rightarrow> 32 word \<Rightarrow> fixed_xy list list" where
  "shift_polyline geometry delta_z = map (map (\<lambda>point. shift_xy point delta_z)) geometry"

text \<open>
  The overloads for the null geometry and for the polygon have empty bodies. The
  dispatching overload computes \<open>delta_z = 20 - z\<close> in unsigned 32-bit arithmetic.
\<close>

fun shift_unpacked :: "fixed_geometry \<Rightarrow> 32 word \<Rightarrow> fixed_geometry" where
  "shift_unpacked Fixed_null delta_z = Fixed_null"
| "shift_unpacked (Fixed_point point) delta_z = Fixed_point (shift_xy point delta_z)"
| "shift_unpacked (Fixed_polyline geometry) delta_z =
     Fixed_polyline (shift_polyline geometry delta_z)"
| "shift_unpacked (Fixed_polygon outer inners) delta_z = Fixed_polygon outer inners"

definition shift :: "fixed_geometry \<Rightarrow> 32 word \<Rightarrow> fixed_geometry" where
  "shift geometry z = (let delta_z = 20 - z in shift_unpacked geometry delta_z)"

text \<open>All coordinates of a geometry, in order.\<close>

fun coords_xy :: "fixed_xy \<Rightarrow> fixed_coord_t list" where
  "coords_xy p = [x_c p, y_c p]"

fun coords :: "fixed_geometry \<Rightarrow> fixed_coord_t list" where
  "coords Fixed_null = []"
| "coords (Fixed_point p) = coords_xy p"
| "coords (Fixed_polyline ls) = concat (map (\<lambda>l. concat (map coords_xy l)) ls)"
| "coords (Fixed_polygon outer inners) =
     concat (map coords_xy outer) @ concat (map (\<lambda>l. concat (map coords_xy l)) inners)"

text \<open>The quotient the specification asks for: floor division of the signed value.\<close>

definition div_pow2 :: "nat \<Rightarrow> fixed_coord_t \<Rightarrow> int" where
  "div_pow2 k c = sint c div 2 ^ k"

section \<open>Failures\<close>

text \<open>
  Every way a modelled function can leave without its result: a failed \<open>verify\<close>
  (with its message), \<open>std::out_of_range\<close> of \<open>vector::at\<close>, a left shift by
  at least the width of its operand (undefined in the source language), and reading through
  an iterator at the end of its range.
\<close>

datatype failure =
    Verify_failed string
  | Out_of_range
  | Undefined_shift
  | End_of_range

section \<open>The prepare scheduler\<close>

record prepare_task =
  task_tile :: tile
  task_packs :: "(tile \<times> string) list"
  task_result :: "string option"

definition mk_prepare_task :: "tile \<Rightarrow> prepare_task" where
  "mk_prepare_task t = \<lparr>task_tile = t, task_packs = [], task_result = None\<rparr>"

record prepare_stats =
  n_total :: "64 word"
  n_finished :: "64 word"
  n_empty :: "64 word"
  sum_size :: "64 word"
  sum_dur :: "64 word"

definition prepare_stats0 :: prepare_stats where
  "prepare_stats0 =
     \<lparr>n_total = 0, n_finished = 0, n_empty = 0, sum_size = 0, sum_dur = 0\<rparr>"

text \<open>
  \<open>geo::tile_range\<close> belongs to the geo library. A range is modelled by the tiles
  between its \<open>begin_\<close> and its \<open>end_\<close>, in iteration order: \<open>*begin_\<close> is the
  head, \<open>++begin_\<close> drops it, and \<open>begin() == end()\<close> holds when nothing is left.
  \<open>geo::tile_range_on_z\<close> is a parameter \<open>on_z\<close> of the scheduler's functions.
\<close>

type_synonym tile_range = "tile list"

record prepare_manager =
  max_zoomlevel :: "32 word"
  curr_zoomlevel :: "32 word"
  base_range :: tile_range
  curr_range :: tile_range
  stats :: "prepare_stats list"

definition mk_prepare_manager ::
  "(tile_range \<Rightarrow> 32 word \<Rightarrow> tile_range) \<Rightarrow> tile_range \<Rightarrow> 32 word \<Rightarrow> prepare_manager" where
  "mk_prepare_manager on_z base max_z =
     \<lparr>max_zoomlevel = max_z,
      curr_zoomlevel = 0,
      base_range = base,
      curr_range = on_z base 0,
      stats = replicate (unat (max_z + 1)) prepare_stats0\<rparr>"

subsection \<open>get_batch\<close>

text \<open>
  The loop header is
  \<^verbatim>\<open>for (auto i = 0u; i < (1u << 8u); i += 1u << std::max(8u - curr_zoomlevel_, 0u))\<close>.
  All operands are unsigned 32-bit: the subtraction wraps, and \<open>std::max\<close> compares
  unsigned values. A shift of \<open>1u\<close> by 32 or more is undefined and is a failure of the
  model.
\<close>

definition batch_exponent :: "32 word \<Rightarrow> 32 word" where
  "batch_exponent zc = max (8 - zc) 0"

definition batch_stride :: "32 word \<Rightarrow> failure + 32 word" where
  "batch_stride zc =
     (let e = batch_exponent zc
      in if unat e < 32 then Inr (push_bit (unat e) 1) else Inl Undefined_shift)"

text \<open>
  One pass through the loop body: count the tile, take it from the current range, and
  move to the next zoom level when the range is used up. \<open>stats_[curr_zoomlevel_]\<close> is
  an unchecked access; an index outside the vector is a failure of the model, and so is
  reading \<open>*curr_range_.begin_\<close> of a range with nothing left.
\<close>

definition batch_body ::
  "(tile_range \<Rightarrow> 32 word \<Rightarrow> tile_range) \<Rightarrow> prepare_manager \<Rightarrow>
   failure + (prepare_task \<times> prepare_manager)" where
  "batch_body on_z m =
     (let zc = unat (curr_zoomlevel m) in
      if \<not> zc < length (stats m) then Inl Out_of_range
      else
        let st = stats m ! zc;
            m1 = m\<lparr>stats := (stats m)[zc := st\<lparr>n_total := n_total st + 1\<rparr>]\<rparr>
        in case curr_range m1 of
             [] \<Rightarrow> Inl End_of_range
           | t # rest \<Rightarrow>
               let m2 = m1\<lparr>curr_range := rest\<rparr>;
                   m3 = (if rest = []
                         then m2\<lparr>curr_zoomlevel := curr_zoomlevel m2 + 1,
                                 curr_range := on_z (base_range m2) (curr_zoomlevel m2 + 1)\<rparr>
                         else m2)
               in Inr (mk_prepare_task t, m3))"

lemma unat_push_bit_1:
  assumes "e < 32"
  shows "unat (push_bit e (1 :: 32 word)) = 2 ^ e"
proof -
  have "unat (push_bit e (1 :: 32 word)) =
        take_bit LENGTH(32) (push_bit e (unat (1 :: 32 word)))"
    by (rule unsigned_push_bit_eq)
  also have "\<dots> = take_bit 32 ((2::nat) ^ e)" by simp
  also have "\<dots> = 2 ^ e"
    using assms by (simp add: take_bit_nat_eq_self_iff)
  finally show ?thesis .
qed

lemma batch_stride_grows:
  assumes "batch_stride zc = Inr s" and "i < (256 :: 32 word)"
  shows "unat i < unat (i + s)"
proof -
  define e where "e = unat (batch_exponent zc)"
  from assms(1) have e: "e < 32" and s: "s = push_bit e 1"
    by (auto simp: batch_stride_def Let_def e_def split: if_splits)
  have us: "unat s = 2 ^ e"
    unfolding s using e by (rule unat_push_bit_1)
  have "(2::nat) ^ e \<le> 2 ^ 31"
    using e by (intro power_increasing) auto
  moreover have "unat i < 256"
    using assms(2) by (simp add: word_less_nat_alt)
  ultimately have "unat i + unat s < 2 ^ 32"
    using us by simp
  then have "unat (i + s) = unat i + unat s"
    by (simp add: unat_add_lem [THEN iffD1])
  then show ?thesis using us by simp
qed

function get_batch_loop ::
  "(tile_range \<Rightarrow> 32 word \<Rightarrow> tile_range) \<Rightarrow> 32 word \<Rightarrow> prepare_manager \<Rightarrow>
   prepare_task list \<Rightarrow> failure + (prepare_task list \<times> prepare_manager)" where
  "get_batch_loop on_z i m batch =
     (if \<not> i < 256 then Inr (batch, m)
      else if curr_zoomlevel m > max_zoomlevel m then Inr (batch, m)
      else case batch_body on_z m of
             Inl e \<Rightarrow> Inl e
           | Inr (task, m') \<Rightarrow>
               (case batch_stride (curr_zoomlevel m') of
                  Inl e \<Rightarrow> Inl e
                | Inr s \<Rightarrow> get_batch_loop on_z (i + s) m' (batch @ [task])))"
  by pat_completeness auto
termination
proof (relation "measure (\<lambda>(on_z, i, m, batch). 2 ^ 32 - unat i)", goal_cases)
  case 1
  show ?case by simp
next
  case (2 on_z i m batch x2 task m' s)
  then have "unat i < unat (i + s)" by (simp add: batch_stride_grows)
  moreover have "unat (i + s) < 2 ^ 32" using unsigned_less [of "i + s"] by simp
  ultimately show ?case by simp
qed

declare get_batch_loop.simps [simp del]

definition get_batch ::
  "(tile_range \<Rightarrow> 32 word \<Rightarrow> tile_range) \<Rightarrow> prepare_manager \<Rightarrow>
   failure + (prepare_task list \<times> prepare_manager)" where
  "get_batch on_z m = get_batch_loop on_z 0 m []"

subsection \<open>finish\<close>

text \<open>
  The closing \<open>t_log\<close> line of a zoom level prints the level, the summed duration, the
  total, the average size and the empty count. The average is a floating-point quotient;
  the model records its numerator and denominator instead (\<open>None\<close> where the source
  prints \<open>0.\<close>).
\<close>

record level_log =
  log_z :: "32 word"
  log_dur :: "64 word"
  log_total :: "64 word"
  log_avg :: "(64 word \<times> 64 word) option"
  log_empty :: "64 word"

definition finish ::
  "prepare_manager \<Rightarrow> tile \<Rightarrow> 64 word \<Rightarrow> 64 word \<Rightarrow>
   failure + (level_log list \<times> prepare_manager)" where
  "finish m tile sz dur =
     (let z = unat (tile_z tile) in
      if \<not> z < length (stats m) then Inl Out_of_range
      else
        let st0 = stats m ! z;
            st1 = st0\<lparr>sum_size := sum_size st0 + sz\<rparr>;
            st2 = st1\<lparr>sum_dur := sum_dur st1 + dur\<rparr>;
            st3 = st2\<lparr>n_finished := n_finished st2 + 1\<rparr>;
            st = (if sz \<noteq> 0 then st3\<lparr>n_empty := n_empty st3 + 1\<rparr> else st3);
            m' = m\<lparr>stats := (stats m)[z := st]\<rparr>
        in if tile_z tile = curr_zoomlevel m \<or> n_finished st < n_total st then Inr ([], m')
           else Inr ([\<lparr>log_z = tile_z tile, log_dur = sum_dur st, log_total = n_total st,
                       log_avg = (if n_total st = n_empty st then None
                                  else Some (sum_size st, n_total st - n_empty st)),
                       log_empty = n_empty st\<rparr>], m'))"

text \<open>A worker's calls to \<open>finish\<close>, one after the other; the log lines accumulate.\<close>

fun finish_all ::
  "prepare_manager \<Rightarrow> (tile \<times> 64 word \<times> 64 word) list \<Rightarrow>
   failure + (level_log list \<times> prepare_manager)" where
  "finish_all m [] = Inr ([], m)"
| "finish_all m ((tile, sz, dur) # rest) =
     (case finish m tile sz dur of
        Inl e \<Rightarrow> Inl e
      | Inr (log, m') \<Rightarrow>
          (case finish_all m' rest of
             Inl e \<Rightarrow> Inl e
           | Inr (log', m'') \<Rightarrow> Inr (log @ log', m'')))"

section \<open>Features, boxes and tile specs\<close>

text \<open>
  \<open>feature\<close> as in \<open>tiles/feature/feature.h\<close>. The \<open>std::map\<close> of metadata is the
  list of its pairs in the map's iteration order (ascending keys, each key once); looking a
  key up is \<open>map_of\<close>.
\<close>

record feature =
  feature_id :: "64 word"
  feature_layer :: nat
  zoom_levels :: "32 word \<times> 32 word"
  meta :: "(string \<times> string) list"
  geometry :: fixed_geometry

text \<open>
  A box has a minimum and a maximum corner. \<open>tile_spec\<close> is declared in
  \<open>tiles/mvt/tile_spec.h\<close>, which is not among the sources; the sources read its
  members \<open>tile_\<close>, \<open>pixel_bounds_\<close>, \<open>insert_bounds_\<close> and \<open>draw_bounds_\<close>.
  Its constructor \<open>tile_spec{tile}\<close> is a parameter \<open>mk_spec\<close> of the functions that
  call it, and so is \<open>bounding_box\<close>.
\<close>

record fixed_box =
  min_corner :: fixed_xy
  max_corner :: fixed_xy

record tile_spec =
  spec_tile :: tile
  pixel_bounds :: fixed_box
  insert_bounds :: fixed_box
  draw_bounds :: fixed_box

section \<open>The quad-tree of tiles\<close>

text \<open>
  Modelled from the spec: \<open>parent\<close>, \<open>direct_children\<close> and \<open>quad_pos\<close> of
  \<open>geo::tile\<close> (from the geo library) are the standard ones of a quad-tree. The parent
  halves both coordinates one level up, the children are the four tiles one level down in
  rows, and \<open>quad_pos\<close> is \<open>(y_ % 2 << 1) | (x_ % 2)\<close>.
\<close>

definition parent :: "tile \<Rightarrow> tile" where
  "parent t = mk_tile (drop_bit 1 (tile_x t)) (drop_bit 1 (tile_y t)) (tile_z t - 1)"

definition direct_children :: "tile \<Rightarrow> tile list" where
  "direct_children t =
     [mk_tile (2 * tile_x t) (2 * tile_y t) (tile_z t + 1),
      mk_tile (2 * tile_x t + 1) (2 * tile_y t) (tile_z t + 1),
      mk_tile (2 * tile_x t) (2 * tile_y t + 1) (tile_z t + 1),
      mk_tile (2 * tile_x t + 1) (2 * tile_y t + 1) (tile_z t + 1)]"

definition quad_pos :: "tile \<Rightarrow> 32 word" where
  "quad_pos t = push_bit 1 (tile_y t mod 2) OR (tile_x t mod 2)"

definition kMaxZoomLevel :: "32 word" where
  "kMaxZoomLevel = 20"

section \<open>find_best_tile\<close>

text \<open>
  The test under which the loop over the children says \<open>continue\<close>: the feature's box
  lies wholly to one side of the tile's box. Coordinates compare as signed values.
\<close>

definition box_apart :: "fixed_box \<Rightarrow> fixed_box \<Rightarrow> bool" where
  "box_apart feature_box tile_box \<longleftrightarrow>
     (sint (x_c (max_corner feature_box)) < sint (x_c (min_corner tile_box)) \<or>
      sint (x_c (min_corner feature_box)) > sint (x_c (max_corner tile_box))) \<or>
     (sint (y_c (max_corner feature_box)) < sint (y_c (min_corner tile_box)) \<or>
      sint (y_c (min_corner feature_box)) > sint (y_c (max_corner tile_box)))"

text \<open>
  The inner \<open>for\<close> loop over the children, with \<open>next_best\<close> as its state. The result
  \<open>None\<close> is the early \<open>return best\<close> at the second match; \<open>Some next_best\<close> is the
  state after the last child.
\<close>

fun scan_children ::
  "(tile \<Rightarrow> tile_spec) \<Rightarrow> fixed_box \<Rightarrow> tile list \<Rightarrow> tile option \<Rightarrow> tile option option" where
  "scan_children mk_spec feature_box [] next_best = Some next_best"
| "scan_children mk_spec feature_box (child # children) next_best =
     (if box_apart feature_box (insert_bounds (mk_spec child))
      then scan_children mk_spec feature_box children next_best
      else if next_best \<noteq> None then None
      else scan_children mk_spec feature_box children (Some child))"

lemma scan_children_member:
  "scan_children mk_spec feature_box children next_best = Some (Some c) \<Longrightarrow>
   Some c = next_best \<or> c \<in> set children"
  by (induction children arbitrary: next_best) (auto split: if_splits)

lemma direct_children_z:
  "c \<in> set (direct_children t) \<Longrightarrow> tile_z c = tile_z t + 1"
  by (auto simp: direct_children_def mk_tile_def)

function find_best_tile_loop :: "(tile \<Rightarrow> tile_spec) \<Rightarrow> fixed_box \<Rightarrow> tile \<Rightarrow> failure + tile" where
  "find_best_tile_loop mk_spec feature_box best =
     (if tile_z best < kMaxZoomLevel then
        (case scan_children mk_spec feature_box (direct_children best) None of
           None \<Rightarrow> Inr best
         | Some None \<Rightarrow> Inl (Verify_failed ''at least one child must match'')
         | Some (Some next_best) \<Rightarrow> find_best_tile_loop mk_spec feature_box next_best)
      else Inr best)"
  by pat_completeness auto
termination
proof (relation "measure (\<lambda>(mk_spec, feature_box, best). 20 - unat (tile_z best))", goal_cases)
  case 1
  show ?case by simp
next
  case (2 mk_spec feature_box best x2 next_best)
  then have "next_best \<in> set (direct_children best)"
    by (auto dest: scan_children_member)
  then have z: "tile_z next_best = tile_z best + 1"
    by (rule direct_children_z)
  have lt: "unat (tile_z best) < 20"
    using 2(1) by (simp add: kMaxZoomLevel_def word_less_nat_alt)
  then have "unat (tile_z best + 1) = unat (tile_z best) + 1"
    by (simp add: unat_word_ariths)
  with z lt show ?case by simp
qed

declare find_best_tile_loop.simps [simp del]

definition find_best_tile ::
  "(tile \<Rightarrow> tile_spec) \<Rightarrow> (fixed_geometry \<Rightarrow> fixed_box) \<Rightarrow> tile \<Rightarrow> feature \<Rightarrow> failure + tile" where
  "find_best_tile mk_spec bounding_box root f =
     (let feature_box = bounding_box (geometry f)
      in find_best_tile_loop mk_spec feature_box root)"

text \<open>
  Example data for the packing scenario of the specification: a spec constructor whose
  insert bounds are 8 units wide at every tile (the tile (x, y) covers 8x to 8x + 7 and
  8y to 8y + 7), and a bounding box that spans (6, 6) to (14, 14) for every geometry.
\<close>

definition box0 :: fixed_box where
  "box0 = \<lparr>min_corner = \<lparr>x_c = 0, y_c = 0\<rparr>, max_corner = \<lparr>x_c = 0, y_c = 0\<rparr>\<rparr>"

definition grid_spec :: "tile \<Rightarrow> tile_spec" where
  "grid_spec t =
     \<lparr>spec_tile = t,
      pixel_bounds = box0,
      insert_bounds =
        \<lparr>min_corner = \<lparr>x_c = 8 * ucast (tile_x t), y_c = 8 * ucast (tile_y t)\<rparr>,
         max_corner = \<lparr>x_c = 8 * ucast (tile_x t) + 7, y_c = 8 * ucast (tile_y t) + 7\<rparr>\<rparr>,
      draw_bounds = box0\<rparr>"

definition box_6_14 :: "fixed_geometry \<Rightarrow> fixed_box" where
  "box_6_14 g = \<lparr>min_corner = \<lparr>x_c = 6, y_c = 6\<rparr>, max_corner = \<lparr>x_c = 14, y_c = 14\<rparr>\<rparr>"

definition line_6_14 :: feature where
  "line_6_14 =
     \<lparr>feature_id = 1, feature_layer = 0, zoom_levels = (0, 20), meta = [],
      geometry = Fixed_polyline [[\<lparr>x_c = 6, y_c = 6\<rparr>, \<lparr>x_c = 14, y_c = 14\<rparr>]]\<rparr>"

section \<open>The HTTP front end\<close>

text \<open>
  \<open>reply\<close>, \<open>reply::stock_reply\<close>, \<open>add_cors_headers\<close> and \<open>query_router\<close> belong to
  the net library. A reply has a status, headers and a content; \<open>reply::ok\<close> is the HTTP
  status 200. What the library puts into a stock reply and which headers it adds for CORS
  are parameters, gathered in \<open>net_library\<close>.
\<close>

datatype status_type =
    reply_ok
  | reply_created
  | reply_accepted
  | reply_no_content
  | reply_bad_request
  | reply_not_found
  | reply_internal_server_error

fun status_code :: "status_type \<Rightarrow> nat" where
  "status_code reply_ok = 200"
| "status_code reply_created = 201"
| "status_code reply_accepted = 202"
| "status_code reply_no_content = 204"
| "status_code reply_bad_request = 400"
| "status_code reply_not_found = 404"
| "status_code reply_internal_server_error = 500"

record reply =
  reply_status :: status_type
  reply_headers :: "(string \<times> string) list"
  reply_content :: string

record net_library =
  stock_headers :: "status_type \<Rightarrow> (string \<times> string) list"
  stock_content :: "status_type \<Rightarrow> string"
  cors_headers :: "(string \<times> string) list"

definition stock_reply :: "net_library \<Rightarrow> status_type \<Rightarrow> reply" where
  "stock_reply lib s =
     \<lparr>reply_status = s, reply_headers = stock_headers lib s, reply_content = stock_content lib s\<rparr>"

definition add_cors_headers :: "net_library \<Rightarrow> reply \<Rightarrow> reply" where
  "add_cors_headers lib rep = rep\<lparr>reply_headers := reply_headers rep @ cors_headers lib\<rparr>"

text \<open>
  A request as a handler sees it: the method, the URI and the groups its route's pattern
  matched. The pattern of the tile route has three groups of decimal digits, in the order
  z, x, y.
\<close>

record request =
  req_method :: string
  req_uri :: string
  req_path_params :: "string \<times> string \<times> string"

text \<open>
  What a handler does that can be seen from outside: the lines it prints to
  \<open>std::cout\<close> and the replies it passes to its callback \<open>cb\<close>.
\<close>

record outcome =
  out_log :: "string list"
  out_replies :: "reply list"

text \<open>
  What a handler's \<open>try\<close> block can catch: a \<open>std::exception\<close> with its \<open>what()\<close>,
  or anything else.
\<close>

datatype thrown = Std_exception string | Unknown_exception

definition catch_line :: "thrown \<Rightarrow> string" where
  "catch_line e =
     (case e of
        Std_exception what \<Rightarrow> ''unhandled error: '' @ what
      | Unknown_exception \<Rightarrow> ''unhandled unknown error'')"

text \<open>
  \<open>std::stoul\<close> on a group of the pattern, which is a string of decimal digits: the
  number, or \<open>std::out_of_range\<close> when it does not fit 64 bits. On a string that is not
  all digits (which the pattern never hands over) the model throws as well.
\<close>

definition is_digit :: "char \<Rightarrow> bool" where
  "is_digit c \<longleftrightarrow> 48 \<le> (of_char c :: nat) \<and> (of_char c :: nat) \<le> 57"

definition stoul :: "string \<Rightarrow> thrown + nat" where
  "stoul s =
     (if s = [] \<or> \<not> list_all is_digit s then Inl (Std_exception ''stoul'')
      else let n = foldl (\<lambda>a c. 10 * a + (of_char c - 48)) 0 s
           in if n < 2 ^ 64 then Inr n else Inl (Std_exception ''stoul''))"

text \<open>
  \<open>geo::tile{stoul(p[1]), stoul(p[2]), stoul(p[0])}\<close>, each number cast to 32 bits; the
  initialisers are evaluated from left to right.
\<close>

definition request_tile :: "string \<times> string \<times> string \<Rightarrow> thrown + tile" where
  "request_tile p =
     (case p of (p0, p1, p2) \<Rightarrow>
        (case stoul p1 of
           Inl e \<Rightarrow> Inl e
         | Inr x \<Rightarrow>
             (case stoul p2 of
                Inl e \<Rightarrow> Inl e
              | Inr y \<Rightarrow>
                  (case stoul p0 of
                     Inl e \<Rightarrow> Inl e
                   | Inr z \<Rightarrow> Inr (mk_tile (of_nat x) (of_nat y) (of_nat z))))))"

text \<open>The handler of the route \<open>("OPTIONS", ".*")\<close>.\<close>

definition options_route :: "net_library \<Rightarrow> request \<Rightarrow> outcome" where
  "options_route lib req =
     (let rep = stock_reply lib reply_ok;
          rep = add_cors_headers lib rep
      in \<lparr>out_log = [], out_replies = [rep]\<rparr>)"

text \<open>
  The handler of the tile route. \<open>tiles::render_tile(db, tile)\<close> is the parameter
  \<open>render_tile\<close>: the tile's bytes, or what it throws. Both \<open>catch\<close> blocks print one
  line and fall through to the closing line; neither calls \<open>cb\<close>.
\<close>

definition tile_route :: "net_library \<Rightarrow> (tile \<Rightarrow> thrown + string) \<Rightarrow> request \<Rightarrow> outcome" where
  "tile_route lib render_tile req =
     (let received = ''received a request: '' @ req_uri req;
          done_line = ''done:'' @ req_uri req
      in case request_tile (req_path_params req) of
           Inl e \<Rightarrow> \<lparr>out_log = [received, catch_line e, done_line], out_replies = []\<rparr>
         | Inr tile \<Rightarrow>
             (case render_tile tile of
                Inl e \<Rightarrow> \<lparr>out_log = [received, catch_line e, done_line], out_replies = []\<rparr>
              | Inr bytes \<Rightarrow>
                  (let rep = stock_reply lib reply_ok;
                       rep = rep\<lparr>reply_content := bytes\<rparr>;
                       rep = add_cors_headers lib rep
                   in \<lparr>out_log = [received, done_line], out_replies = [rep]\<rparr>)))"

text \<open>Example data: a net library, and a request for the tile 3/1/2.\<close>

definition example_net :: net_library where
  "example_net =
     \<lparr>stock_headers = (\<lambda>s. [(''Content-Length'', ''0''), (''Content-Type'', ''text/html'')]),
      stock_content = (\<lambda>s. []),
      cors_headers = [(''Access-Control-Allow-Origin'', ''*'')]\<rparr>"

definition example_get :: request where
  "example_get = \<lparr>req_method = ''GET'', req_uri = ''/3/1/2.mvt'', req_path_params = (''3'', ''1'', ''2'')\<rparr>"

definition example_options :: request where
  "example_options = \<lparr>req_method = ''OPTIONS'', req_uri = ''/3/1/2.mvt'', req_path_params = ([], [], [])\<rparr>"

section \<open>The tile builder\<close>

text \<open>
  The builders write protobuf messages through \<open>protozero::pbf_builder\<close>. A message is
  modelled by the list of fields added to it, in order; a field carries the member of the
  tag enumeration (\<open>tiles/mvt/tags.h\<close>) it was added under and its value, and an embedded
  message is the list of its own fields.
\<close>

datatype mvt_tag =
    Tile_repeated_Layer_layers
  | Layer_required_uint32_version
  | Layer_required_string_name
  | Layer_optional_uint32_extent
  | Layer_repeated_Feature_features
  | Layer_repeated_string_keys
  | Layer_repeated_Value_values
  | Feature_packed_uint32_tags
  | Value_optional_string_string_value

datatype pb_field =
    Pb_uint32 mvt_tag "32 word"
  | Pb_string mvt_tag string
  | Pb_packed_uint32 mvt_tag "32 word list"
  | Pb_message mvt_tag "pb_field list"

text \<open>
  \<open>simplify\<close>, \<open>clip\<close> and \<open>encode_geometry\<close> are not among the sources; they are
  parameters, gathered in \<open>geometry_kernel\<close>. \<open>encode_geometry\<close> yields the fields it
  adds to the feature's message.
\<close>

record geometry_kernel =
  simplify :: "fixed_geometry \<Rightarrow> 32 word \<Rightarrow> fixed_geometry"
  clip :: "fixed_geometry \<Rightarrow> fixed_box \<Rightarrow> fixed_geometry"
  encode_geometry :: "fixed_geometry \<Rightarrow> tile_spec \<Rightarrow> pb_field list"

record builder_config =
  verbose :: bool

record layer_builder =
  has_geometry :: bool
  lb_buf :: "pb_field list"
  meta_key_cache :: "string list"
  meta_value_cache :: "string list"

text \<open>
  The constructor writes the version, the name and the extent. The two caches map a
  string to the index it got when it came in, which is the size of the cache at that
  time: a cache is the list of its strings by index.
\<close>

definition mk_layer_builder :: "string \<Rightarrow> layer_builder" where
  "mk_layer_builder name =
     \<lparr>has_geometry = False,
      lb_buf = [Pb_uint32 Layer_required_uint32_version 2,
                Pb_string Layer_required_string_name name,
                Pb_uint32 Layer_optional_uint32_extent 4096],
      meta_key_cache = [],
      meta_value_cache = []\<rparr>"

fun index_of :: "string list \<Rightarrow> string \<Rightarrow> nat option" where
  "index_of [] s = None"
| "index_of (c # cache) s =
     (if c = s then Some 0 else map_option Suc (index_of cache s))"

definition get_or_create_index :: "string list \<Rightarrow> string \<Rightarrow> nat \<times> string list" where
  "get_or_create_index cache s =
     (case index_of cache s of
        Some i \<Rightarrow> (i, cache)
      | None \<Rightarrow> (length cache, cache @ [s]))"

definition in_z_range :: "(string \<times> string) list \<Rightarrow> bool" where
  "in_z_range m = True"

definition write_geometry ::
  "geometry_kernel \<Rightarrow> tile_spec \<Rightarrow> fixed_geometry \<Rightarrow> pb_field list option" where
  "write_geometry gk spec pristine_geometry =
     (let g = simplify gk pristine_geometry (tile_z (spec_tile spec));
          g = clip gk g (draw_bounds spec)
      in if g = Fixed_null then None
         else Some (encode_geometry gk (shift g (tile_z (spec_tile spec))) spec))"

fun write_metadata ::
  "(string \<times> string) list \<Rightarrow> string list \<Rightarrow> string list \<Rightarrow> 32 word list \<Rightarrow>
   32 word list \<times> string list \<times> string list" where
  "write_metadata [] keys vals t = (t, keys, vals)"
| "write_metadata ((k, v) # rest) keys vals t =
     (if k = ''layer'' \<or> take 2 k = ''__'' then write_metadata rest keys vals t
      else
        let (ki, keys') = get_or_create_index keys k;
            (vi, vals') = get_or_create_index vals v
        in write_metadata rest keys' vals' (t @ [of_nat ki, of_nat vi]))"

definition layer_add_feature ::
  "geometry_kernel \<Rightarrow> tile_spec \<Rightarrow> layer_builder \<Rightarrow> feature \<Rightarrow> layer_builder" where
  "layer_add_feature gk spec lb f =
     (if in_z_range (meta f) then
        (case write_geometry gk spec (geometry f) of
           None \<Rightarrow> lb
         | Some geometry_fields \<Rightarrow>
             (case write_metadata (meta f) (meta_key_cache lb) (meta_value_cache lb) [] of
                (t, keys, vals) \<Rightarrow>
                  lb\<lparr>has_geometry := True,
                     meta_key_cache := keys,
                     meta_value_cache := vals,
                     lb_buf := lb_buf lb @
                       [Pb_message Layer_repeated_Feature_features
                          (geometry_fields @ [Pb_packed_uint32 Feature_packed_uint32_tags t])]\<rparr>))
      else lb)"

definition layer_finish :: "layer_builder \<Rightarrow> pb_field list" where
  "layer_finish lb =
     lb_buf lb
     @ map (Pb_string Layer_repeated_string_keys) (meta_key_cache lb)
     @ map (\<lambda>v. Pb_message Layer_repeated_Value_values
                   [Pb_string Value_optional_string_string_value v])
           (meta_value_cache lb)"

text \<open>
  \<open>tile_builder::impl\<close>. The \<open>std::map\<close> of layer builders is the list of its pairs in
  ascending order of the layer names, which is the order \<open>finish\<close> walks it in. Strings
  compare byte by byte.
\<close>

record tile_builder =
  tb_spec :: tile_spec
  tb_config :: builder_config
  builders :: "(string \<times> layer_builder) list"
  tb_out :: "string list"

definition mk_tile_builder :: "(tile \<Rightarrow> tile_spec) \<Rightarrow> tile \<Rightarrow> builder_config \<Rightarrow> tile_builder" where
  "mk_tile_builder mk_spec t cfg =
     \<lparr>tb_spec = mk_spec t, tb_config = cfg, builders = [], tb_out = []\<rparr>"

text \<open>
  \<open>utl::get_or_create(builders_, name, ...)\<close> followed by a call \<open>g\<close> on the builder it
  returns: the builder under \<open>name\<close> is used if there is one, and a new one is put in at
  the name's place in the order if not.
\<close>

fun get_or_create ::
  "string \<Rightarrow> (layer_builder \<Rightarrow> layer_builder) \<Rightarrow> (string \<times> layer_builder) list \<Rightarrow>
   (string \<times> layer_builder) list" where
  "get_or_create name g [] = [(name, g (mk_layer_builder name))]"
| "get_or_create name g ((k, b) # rest) =
     (if name = k then (k, g b) # rest
      else if name < k then (name, g (mk_layer_builder name)) # (k, b) # rest
      else (k, b) # get_or_create name g rest)"

definition add_feature :: "geometry_kernel \<Rightarrow> tile_builder \<Rightarrow> feature \<Rightarrow> tile_builder" where
  "add_feature gk tb f =
     (case map_of (meta f) ''layer'' of
        None \<Rightarrow> tb\<lparr>tb_out := tb_out tb @ [''skip invalid feature true'']\<rparr>
      | Some name \<Rightarrow>
          tb\<lparr>builders :=
               get_or_create name (\<lambda>lb. layer_add_feature gk (tb_spec tb) lb f)
                 (builders tb)\<rparr>)"

text \<open>
  \<open>finish\<close>: the lines printed and the fields of the \<open>Tile\<close> message. A builder without
  geometry is passed over.
\<close>

fun finish_layers :: "bool \<Rightarrow> (string \<times> layer_builder) list \<Rightarrow> string list \<times> pb_field list" where
  "finish_layers v [] = ([], [])"
| "finish_layers v ((name, lb) # rest) =
     (let (out, buf) = finish_layers v rest;
          out' = (if v then (''append layer: '' @ name) # out else out)
      in if \<not> has_geometry lb then (out', buf)
         else (out', Pb_message Tile_repeated_Layer_layers (layer_finish lb) # buf))"

definition tile_finish :: "tile_builder \<Rightarrow> string list \<times> pb_field list" where
  "tile_finish tb =
     (let (out, buf) = finish_layers (verbose (tb_config tb)) (builders tb)
      in (tb_out tb @ out, buf))"

text \<open>The features added one after the other, and then \<open>finish\<close>.\<close>

definition build_tile ::
  "geometry_kernel \<Rightarrow> (tile \<Rightarrow> tile_spec) \<Rightarrow> tile \<Rightarrow> builder_config \<Rightarrow> feature list \<Rightarrow>
   string list \<times> pb_field list" where
  "build_tile gk mk_spec t cfg fs =
     tile_finish (foldl (add_feature gk) (mk_tile_builder mk_spec t cfg) fs)"

text \<open>
  Reading a \<open>Tile\<close> message back: the name, the version and the extent of a layer are the
  values of the fields of its message with these tags.
\<close>

fun string_fields :: "mvt_tag \<Rightarrow> pb_field list \<Rightarrow> string list" where
  "string_fields tg [] = []"
| "string_fields tg (Pb_string tg' s # rest) =
     (if tg = tg' then s # string_fields tg rest else string_fields tg rest)"
| "string_fields tg (_ # rest) = string_fields tg rest"

fun uint32_fields :: "mvt_tag \<Rightarrow> pb_field list \<Rightarrow> 32 word list" where
  "uint32_fields tg [] = []"
| "uint32_fields tg (Pb_uint32 tg' n # rest) =
     (if tg = tg' then n # uint32_fields tg rest else uint32_fields tg rest)"
| "uint32_fields tg (_ # rest) = uint32_fields tg rest"

fun tile_layers :: "pb_field list \<Rightarrow> pb_field list list" where
  "tile_layers [] = []"
| "tile_layers (Pb_message tg l # rest) =
     (if tg = Tile_repeated_Layer_layers then l # tile_layers rest else tile_layers rest)"
| "tile_layers (_ # rest) = tile_layers rest"

text \<open>
  A feature yields geometry for a tile spec when simplify and clip leave something other
  than the null geometry.
\<close>

definition yields_geometry :: "geometry_kernel \<Rightarrow> tile_spec \<Rightarrow> feature \<Rightarrow> bool" where
  "yields_geometry gk spec f \<longleftrightarrow>
     clip gk (simplify gk (geometry f) (tile_z (spec_tile spec))) (draw_bounds spec)
       \<noteq> Fixed_null"

definition layer_names :: "pb_field list \<Rightarrow> string list" where
  "layer_names msg = concat (map (string_fields Layer_required_string_name) (tile_layers msg))"

text \<open>
  What holds of a layer builder's buffer from its construction on: the three header
  fields, and after them nothing but embedded feature messages.
\<close>

fun is_feature_message :: "pb_field \<Rightarrow> bool" where
  "is_feature_message (Pb_message tg l) = (tg = Layer_repeated_Feature_features)"
| "is_feature_message _ = False"

definition layer_header :: "string \<Rightarrow> pb_field list" where
  "layer_header name =
     [Pb_uint32 Layer_required_uint32_version 2,
      Pb_string Layer_required_string_name name,
      Pb_uint32 Layer_optional_uint32_extent 4096]"

definition layer_inv :: "string \<Rightarrow> layer_builder \<Rightarrow> bool" where
  "layer_inv name lb \<longleftrightarrow>
     (\<exists>rest. lb_buf lb = layer_header name @ rest \<and> list_all is_feature_message rest)"

text \<open>
  What holds of the map of layer builders once the features \<open>seen\<close> have been added:
  the names ascend; every builder has its header; a builder has geometry exactly when one
  of the features of its layer yielded some; and every layer named by a feature has a
  builder.
\<close>

definition builders_inv ::
  "geometry_kernel \<Rightarrow> tile_spec \<Rightarrow> feature list \<Rightarrow> (string \<times> layer_builder) list \<Rightarrow> bool" where
  "builders_inv gk spec seen bs \<longleftrightarrow>
     sorted_wrt (<) (map fst bs) \<and>
     (\<forall>k b. map_of bs k = Some b \<longrightarrow>
        layer_inv k b \<and>
        (has_geometry b \<longleftrightarrow>
           (\<exists>f \<in> set seen. map_of (meta f) ''layer'' = Some k \<and> yields_geometry gk spec f))) \<and>
     (\<forall>f \<in> set seen. \<forall>k. map_of (meta f) ''layer'' = Some k \<longrightarrow> map_of bs k \<noteq> None)"

text \<open>
  Example data for the tile builder: a kernel whose simplify keeps the geometry, whose
  clip keeps a point inside the box and nothing else, and whose encoder adds no field; a
  road that lies inside the draw bounds of \<open>grid_draw_spec\<close>, a lake that lies outside,
  and a feature without a layer.
\<close>

definition example_kernel :: geometry_kernel where
  "example_kernel =
     \<lparr>simplify = (\<lambda>g z. g),
      clip = (\<lambda>g b. case g of
                Fixed_point p \<Rightarrow>
                  if sint (x_c (min_corner b)) \<le> sint (x_c p) \<and> sint (x_c p) \<le> sint (x_c (max_corner b))
                     \<and> sint (y_c (min_corner b)) \<le> sint (y_c p) \<and> sint (y_c p) \<le> sint (y_c (max_corner b))
                  then g else Fixed_null
              | _ \<Rightarrow> Fixed_null),
      encode_geometry = (\<lambda>g s. [])\<rparr>"

definition grid_draw_spec :: "tile \<Rightarrow> tile_spec" where
  "grid_draw_spec t = (grid_spec t)\<lparr>draw_bounds := insert_bounds (grid_spec t)\<rparr>"

definition example_features :: "feature list" where
  "example_features =
     [\<lparr>feature_id = 1, feature_layer = 0, zoom_levels = (0, 20),
       meta = [(''layer'', ''road''), (''name'', ''A1'')],
       geometry = Fixed_point \<lparr>x_c = 3, y_c = 4\<rparr>\<rparr>,
      \<lparr>feature_id = 2, feature_layer = 1, zoom_levels = (0, 20),
       meta = [(''layer'', ''lake'')],
       geometry = Fixed_point \<lparr>x_c = 30, y_c = 40\<rparr>\<rparr>,
      \<lparr>feature_id = 3, feature_layer = 0, zoom_levels = (0, 20),
       meta = [(''name'', ''B2'')],
       geometry = Fixed_point \<lparr>x_c = 1, y_c = 1\<rparr>\<rparr>]"

section \<open>Packing the feature table\<close>

text \<open>
  \<open>pack_features(tile_db_handle&)\<close> works on the \<open>features\<close> table of the database
  through transactions and a cursor. The table is the list of its entries in cursor order,
  that is, in ascending order of the keys; the key type \<open>tile_index_t\<close> and its order are
  left open. What the function does to the database is recorded as a trace of events:
  opening a transaction, \<open>c.del()\<close>, \<open>txn.put\<close>, \<open>txn.commit()\<close>, the abort of a
  transaction that is destroyed uncommitted, and \<open>env_.sync()\<close>.
\<close>

datatype 'k db_event =
    Txn_begin
  | Cursor_del 'k
  | Txn_put 'k string
  | Txn_commit
  | Txn_abort
  | Env_sync

text \<open>
  \<open>feature_key_to_tile\<close>, \<open>make_feature_key\<close> and \<open>unpack_features\<close> are not among the
  sources and are parameters, as is the packing of one tile's features,
  \<open>pack_features(tile, coding_vec, coding_map, features)\<close>, with the two coding tables
  loaded at the start folded into it.
\<close>

record 'k pack_params =
  feature_key_to_tile :: "'k \<Rightarrow> tile"
  make_feature_key :: "tile \<Rightarrow> 'k"
  unpack_features :: "string \<Rightarrow> string list"
  pack_tile :: "tile \<Rightarrow> string list \<Rightarrow> failure + string"

definition kPackBatchThreshold :: nat where
  "kPackBatchThreshold = 64 * 1024 * 1024"

definition invalid_tile :: tile where
  "invalid_tile = mk_tile (- 1) (- 1) (- 1)"

text \<open>
  The state of the collecting loop: the tile being gathered, its features so far, the packs
  made and their summed size. \<open>flush\<close> is the step
  \<^verbatim>\<open>if (!features.empty()) { packed_features.emplace_back(...); }\<close>
  that both the loop and the code after it take.
\<close>

record 'k collect_state =
  c_tile :: tile
  c_features :: "string list"
  c_packed :: "('k \<times> string) list"
  c_size :: nat

definition flush :: "'k pack_params \<Rightarrow> 'k collect_state \<Rightarrow> bool \<Rightarrow> failure + 'k collect_state" where
  "flush P s count_size =
     (if c_features s \<noteq> [] then
        (case pack_tile P (c_tile s) (c_features s) of
           Inl e \<Rightarrow> Inl e
         | Inr data \<Rightarrow>
             Inr (s\<lparr>c_packed := c_packed s @ [(make_feature_key P (c_tile s), data)],
                    c_size := (if count_size then c_size s + length data else c_size s)\<rparr>))
      else Inr s)"

text \<open>
  The cursor loop over the entries from the starting position on. The result is the trace
  of deletions together with either a failure or the final state and the resume key.
\<close>

fun collect ::
  "'k pack_params \<Rightarrow> ('k \<times> string) list \<Rightarrow> 'k collect_state \<Rightarrow>
   'k db_event list \<times> (failure + 'k collect_state \<times> 'k option)" where
  "collect P [] s = ([], Inr (s, None))"
| "collect P ((k, v) # rest) s =
     (let this_tile = feature_key_to_tile P k in
      if c_tile s \<noteq> this_tile \<and> c_size s \<ge> kPackBatchThreshold then ([], Inr (s, Some k))
      else
        let this_features = unpack_features P v in
        if c_tile s \<noteq> this_tile then
          (case flush P s True of
             Inl e \<Rightarrow> ([Cursor_del k], Inl e)
           | Inr s' \<Rightarrow>
               (let (ev, r) = collect P rest (s'\<lparr>c_tile := this_tile, c_features := this_features\<rparr>)
                in (Cursor_del k # ev, r)))
        else
          (let (ev, r) = collect P rest (s\<lparr>c_features := c_features s @ this_features\<rparr>)
           in (Cursor_del k # ev, r)))"

text \<open>
  The table under a transaction: \<open>replay\<close> applies a trace to the committed table, with
  the changes of a transaction taking effect at its commit and lost at its abort.
\<close>

fun table_del :: "'k \<Rightarrow> ('k \<times> string) list \<Rightarrow> ('k \<times> string) list" where
  "table_del k [] = []"
| "table_del k ((k', v) # rest) = (if k = k' then rest else (k', v) # table_del k rest)"

fun table_put :: "'k::linorder \<Rightarrow> string \<Rightarrow> ('k \<times> string) list \<Rightarrow> ('k \<times> string) list" where
  "table_put k v [] = [(k, v)]"
| "table_put k v ((k', v') # rest) =
     (if k = k' then (k, v) # rest
      else if k < k' then (k, v) # (k', v') # rest
      else (k', v') # table_put k v rest)"

fun replay ::
  "'k::linorder db_event list \<Rightarrow> ('k \<times> string) list \<Rightarrow> ('k \<times> string) list \<Rightarrow> ('k \<times> string) list" where
  "replay [] committed working = committed"
| "replay (Txn_begin # ev) committed working = replay ev committed committed"
| "replay (Cursor_del k # ev) committed working = replay ev committed (table_del k working)"
| "replay (Txn_put k v # ev) committed working = replay ev committed (table_put k v working)"
| "replay (Txn_commit # ev) committed working = replay ev working working"
| "replay (Txn_abort # ev) committed working = replay ev committed committed"
| "replay (Env_sync # ev) committed working = replay ev committed working"

text \<open>
  One pass of the \<open>do\<close> loop: the collecting transaction, the sync, and the writing
  transaction. An exception leaves the collecting transaction uncommitted.
\<close>

datatype 'k batch_result =
    Batch_failed failure
  | Batch_done "('k \<times> string) list" "'k option"

definition pack_batch ::
  "'k::linorder pack_params \<Rightarrow> ('k \<times> string) list \<Rightarrow> 'k option \<Rightarrow>
   'k db_event list \<times> 'k batch_result" where
  "pack_batch P db resume_key =
     (let entries = (case resume_key of
                       Some k \<Rightarrow> dropWhile (\<lambda>(k', v). k' < k) db
                     | None \<Rightarrow> db);
          s0 = \<lparr>c_tile = invalid_tile, c_features = [], c_packed = [], c_size = 0\<rparr>
      in case collect P entries s0 of
           (ev, Inl e) \<Rightarrow> (Txn_begin # ev @ [Txn_abort], Batch_failed e)
         | (ev, Inr (s, resume')) \<Rightarrow>
             (case flush P s False of
                Inl e \<Rightarrow> (Txn_begin # ev @ [Txn_abort], Batch_failed e)
              | Inr s' \<Rightarrow>
                  (Txn_begin # ev @ [Txn_commit] @ [Env_sync]
                     @ Txn_begin # map (\<lambda>(key, data). Txn_put key data) (c_packed s')
                     @ [Txn_commit],
                   Batch_done (c_packed s') resume')))"

text \<open>
  The \<open>do ... while (resume_key)\<close> loop. The packs are written back into the table the
  cursor walks, so whether the loop comes to an end depends on the keys
  \<open>make_feature_key\<close> gives them; the model runs \<open>fuel\<close> passes at most and says how it
  stopped.
\<close>

datatype run_status = Run_finished | Run_failed failure | Out_of_fuel

fun pack_loop ::
  "nat \<Rightarrow> 'k::linorder pack_params \<Rightarrow> ('k \<times> string) list \<Rightarrow> 'k option \<Rightarrow>
   'k db_event list \<times> run_status" where
  "pack_loop 0 P db resume_key = ([], Out_of_fuel)"
| "pack_loop (Suc fuel) P db resume_key =
     (case pack_batch P db resume_key of
        (ev, Batch_failed e) \<Rightarrow> (ev, Run_failed e)
      | (ev, Batch_done packed None) \<Rightarrow> (ev, Run_finished)
      | (ev, Batch_done packed (Some k)) \<Rightarrow>
          (let (ev', st) = pack_loop fuel P (replay ev db db) (Some k)
           in (ev @ ev', st)))"

definition pack_features_db ::
  "nat \<Rightarrow> 'k::linorder pack_params \<Rightarrow> ('k \<times> string) list \<Rightarrow> 'k db_event list \<times> run_status" where
  "pack_features_db fuel P db = pack_loop fuel P db None"

text \<open>
  The number of the transaction an event of a trace belongs to: how many transactions
  have been opened up to and including the event at position \<open>i\<close>.
\<close>

definition txn_of :: "'k db_event list \<Rightarrow> nat \<Rightarrow> nat" where
  "txn_of ev i = length (filter (\<lambda>e. e = Txn_begin) (take (Suc i) ev))"

text \<open>Example data: keys are numbers, ten to a tile column; a pack is its features joined.\<close>

definition example_params :: "nat pack_params" where
  "example_params =
     \<lparr>feature_key_to_tile = (\<lambda>k. mk_tile (of_nat (k div 10)) 0 10),
      make_feature_key = (\<lambda>t. 10 * unat (tile_x t)),
      unpack_features = (\<lambda>v. [v]),
      pack_tile = (\<lambda>t fs. Inr (concat fs))\<rparr>"

definition example_table :: "(nat \<times> string) list" where
  "example_table = [(10, ''ab''), (11, ''cd''), (20, ''ef'')]"

section \<open>Spatial keys and range scans\<close>

text \<open>
  Modelled from the spec: the spatial key. \<open>tile_coords_to_key\<close>, \<open>make_feature_key\<close>
  and \<open>make_tile_key\<close> live in \<open>tiles/db/tile_index.h\<close>, which is not among the
  sources. The specification gives the key of the tile \<open>(z, x, y)\<close> as
  \<open>(z << 58) | (x interleaved with y at z)\<close>, a 64-bit unsigned integer, and the feature
  key as the tile key at the index zoom. Interleaving takes the coordinates bit by bit, the
  bit of \<open>y\<close> above the bit of \<open>x\<close> as in \<open>quad_pos\<close>, the bits of the coarsest level on
  top. Coordinates and keys are natural numbers here.
\<close>

fun interleave :: "nat \<Rightarrow> nat \<Rightarrow> nat \<Rightarrow> nat" where
  "interleave 0 x y = 0"
| "interleave (Suc z) x y = 4 * interleave z (x div 2) (y div 2) + (2 * (y mod 2) + x mod 2)"

definition spatial_key :: "nat \<Rightarrow> nat \<Rightarrow> nat \<Rightarrow> nat" where
  "spatial_key z x y = z * 2 ^ 58 + interleave z x y"

text \<open>
  Modelled from the spec: the quad-tree Morton order at a zoom level. The place of a tile
  in the quad-tree is the path of quadrant positions from the root down to the tile, and
  tiles of one zoom level are ordered by comparing their paths position by position.
\<close>

fun quad_path :: "nat \<Rightarrow> nat \<Rightarrow> nat \<Rightarrow> nat list" where
  "quad_path 0 x y = []"
| "quad_path (Suc z) x y = quad_path z (x div 2) (y div 2) @ [2 * (y mod 2) + x mod 2]"



text \<open>
  \<open>query_features\<close> stores and compares keys as \<open>std::to_string\<close> of the number: its
  decimal digits, the most significant first.
\<close>

definition digit_char :: "nat \<Rightarrow> char" where
  "digit_char d = char_of (48 + d)"

function to_string :: "nat \<Rightarrow> string" where
  "to_string n = (if n < 10 then [digit_char n] else to_string (n div 10) @ [digit_char (n mod 10)])"
  by pat_completeness auto
termination
  by (relation "measure id") auto

declare to_string.simps [simp del]

text \<open>
  The inner loop of \<open>query_features\<close>,
  \<^verbatim>\<open>for (auto el = c.get(SET_RANGE, key_begin); el->first < key_end; el = c.get(NEXT))\<close>,
  over the table as the list of its entries in the order of their keys. \<open>SET_RANGE\<close>
  moves to the first entry whose key is not below \<open>key_begin\<close>. The loop calls \<open>fn\<close> on
  the value of each entry it passes; the condition reads \<open>el->first\<close> even when the cursor
  has run off the end of the table, which is a failure of the model. The result is the
  values \<open>fn\<close> was called on, and the failure if there was one.
\<close>

fun scan_until :: "(string \<times> string) list \<Rightarrow> string \<Rightarrow> string list \<times> failure option" where
  "scan_until [] key_end = ([], Some End_of_range)"
| "scan_until ((k, v) # rest) key_end =
     (if k < key_end
      then (let (visited, e) = scan_until rest key_end in (v # visited, e))
      else ([], None))"

definition range_scan ::
  "(string \<times> string) list \<Rightarrow> string \<Rightarrow> string \<Rightarrow> string list \<times> failure option" where
  "range_scan table key_begin key_end =
     scan_until (dropWhile (\<lambda>(k, v). k < key_begin) table) key_end"

text \<open>
  \<open>query_features\<close>: one range scan per row \<open>y\<close> of the bounds of the tile on the index
  zoom level, from the key of \<open>(minx, y)\<close> to the key of \<open>(maxx, y)\<close>. The bounds
  (\<open>tile.bounds_on_z(10)\<close>) and \<open>tile_coords_to_key\<close> are parameters.
\<close>

record tile_iterator_bounds =
  minx :: nat
  miny :: nat
  maxx :: nat
  maxy :: nat

fun query_rows ::
  "(nat \<Rightarrow> nat \<Rightarrow> nat) \<Rightarrow> (string \<times> string) list \<Rightarrow> tile_iterator_bounds \<Rightarrow> nat list \<Rightarrow>
   string list \<times> failure option" where
  "query_rows tile_coords_to_key table bounds [] = ([], None)"
| "query_rows tile_coords_to_key table bounds (y # ys) =
     (let key_begin = to_string (tile_coords_to_key (minx bounds) y);
          key_end = to_string (tile_coords_to_key (maxx bounds) y)
      in case range_scan table key_begin key_end of
           (visited, Some e) \<Rightarrow> (visited, Some e)
         | (visited, None) \<Rightarrow>
             (let (visited', e) = query_rows tile_coords_to_key table bounds ys
              in (visited @ visited', e)))"

definition query_features ::
  "(nat \<Rightarrow> nat \<Rightarrow> nat) \<Rightarrow> (string \<times> string) list \<Rightarrow> tile_iterator_bounds \<Rightarrow>
   string list \<times> failure option" where
  "query_features tile_coords_to_key table bounds =
     query_rows tile_coords_to_key table bounds [miny bounds ..< maxy bounds]"

text \<open>A table of entries under numeric keys, as it is stored under their decimal strings.\<close>

definition stored :: "(nat \<times> string) list \<Rightarrow> (string \<times> string) list" where
  "stored kvs = map (\<lambda>(k, v). (to_string k, v)) kvs"

text \<open>
  The number a list of digits stands for in base \<open>b\<close>, the most significant digit
  first, and the decimal digits of a number.
\<close>

fun digits_value :: "nat \<Rightarrow> nat list \<Rightarrow> nat" where
  "digits_value b [] = 0"
| "digits_value b (d # ds) = d * b ^ length ds + digits_value b ds"

function decimal :: "nat \<Rightarrow> nat list" where
  "decimal n = (if n < 10 then [n] else decimal (n div 10) @ [n mod 10])"
  by pat_completeness auto
termination
  by (relation "measure id") auto

declare decimal.simps [simp del]

text \<open>The keys of the tiles of one zoom level.\<close>

definition zoom_key :: "nat \<Rightarrow> nat \<Rightarrow> bool" where
  "zoom_key z k \<longleftrightarrow> (\<exists>x y. k = spatial_key z x y)"


section \<open>The feature packer\<close>

text \<open>
  The packer builds the pack in a \<open>std::string\<close> used as a byte buffer; serialized
  features are byte strings as well. Bytes are 8-bit words here.
\<close>

type_synonym bytes = "8 word list"

text \<open>
  Modelled from the spec: \<open>tiles::append<uint32_t>\<close> and \<open>write_nth<uint32_t>\<close> (from
  \<open>tiles/util.h\<close>, not among the sources) write the four bytes of the number, little-endian,
  at the end of the buffer and over its \<open>n\<close>-th group of four bytes.
\<close>

definition le32 :: "32 word \<Rightarrow> bytes" where
  "le32 v = [ucast v, ucast (drop_bit 8 v), ucast (drop_bit 16 v), ucast (drop_bit 24 v)]"

definition write_nth_u32 :: "bytes \<Rightarrow> nat \<Rightarrow> 32 word \<Rightarrow> bytes" where
  "write_nth_u32 buf n v = take (4 * n) buf @ le32 v @ drop (4 * n + 4) buf"

text \<open>
  \<open>protozero::write_varint\<close>: seven bits to a byte, the low ones first, the top bit set
  on every byte but the last. Its argument is a size or an offset, a natural number here.
\<close>

function write_varint :: "nat \<Rightarrow> bytes" where
  "write_varint n =
     (if n > 127 then of_nat (n mod 128 + 128) # write_varint (n div 128) else [of_nat n])"
  by pat_completeness auto
termination
  by (relation "measure id") auto

declare write_varint.simps [simp del]

text \<open>
  The packer's state is its buffer \<open>buf_\<close>. The constructor writes the feature count and
  reserves the slot of the index offset. An offset is the size of the buffer cut to 32
  bits.
\<close>

definition packer_init :: "32 word \<Rightarrow> bytes" where
  "packer_init feature_count = le32 feature_count @ le32 0"

definition write_index_offset :: "bytes \<Rightarrow> 32 word \<Rightarrow> bytes" where
  "write_index_offset buf offset = write_nth_u32 buf 1 offset"

fun append_span_loop :: "bytes \<Rightarrow> bytes list \<Rightarrow> failure + bytes" where
  "append_span_loop buf [] = Inr buf"
| "append_span_loop buf (it # rest) =
     (if \<not> length it \<ge> 32 then Inl (Verify_failed ''MINI FEATURE?!'')
      else append_span_loop (buf @ write_varint (length it) @ it) rest)"

definition append_span :: "bytes \<Rightarrow> bytes list \<Rightarrow> failure + (32 word \<times> bytes)" where
  "append_span buf span =
     (let offset = of_nat (length buf) in
      case append_span_loop buf span of
        Inl e \<Rightarrow> Inl e
      | Inr buf' \<Rightarrow> Inr (offset, buf' @ write_varint 0))"

definition append_packed :: "bytes \<Rightarrow> 32 word list \<Rightarrow> 32 word \<times> bytes" where
  "append_packed buf vec =
     (of_nat (length buf), foldl (\<lambda>b e. b @ write_varint (unat e)) buf vec)"

definition append_string :: "bytes \<Rightarrow> bytes \<Rightarrow> 32 word \<times> bytes" where
  "append_string buf s = (of_nat (length buf), buf @ s)"

subsection \<open>make_quad_key\<close>

text \<open>
  The loop of \<open>make_quad_key\<close> climbs from the tile to the child of the root, checking
  at each step that it is still below the root. \<open>quad_trace\<close> is the trace before the
  root is pushed onto it.
\<close>

function quad_trace :: "tile \<Rightarrow> tile \<Rightarrow> failure + tile list" where
  "quad_trace root back =
     (if parent back = root then Inr [back]
      else if \<not> tile_z back > tile_z root then Inl (Verify_failed ''tile outside root'')
      else (case quad_trace root (parent back) of
              Inl e \<Rightarrow> Inl e
            | Inr trace \<Rightarrow> Inr (back # trace)))"
  by pat_completeness auto
termination
proof (relation "measure (\<lambda>(root, back). unat (tile_z back))", goal_cases)
  case 1
  show ?case by simp
next
  case (2 root t)
  then have "tile_z t \<noteq> 0" by (auto simp: word_gt_0)
  then have "unat (tile_z t - 1) < unat (tile_z t)"
    by (rule measure_unat)
  then show ?case by (simp add: parent_def mk_tile_def)
qed

declare quad_trace.simps [simp del]

definition make_quad_key :: "tile \<Rightarrow> tile \<Rightarrow> failure + bytes" where
  "make_quad_key root t =
     (if t = root then Inr []
      else case quad_trace root t of
             Inl e \<Rightarrow> Inl e
           | Inr trace \<Rightarrow> Inr (map (\<lambda>t. ucast (quad_pos t)) (rev (trace @ [root]))))"

subsection \<open>pack_features\<close>

record packable_feature =
  pf_quad_key :: bytes
  pf_best_tile :: tile
  pf_feature :: bytes

record quad_tree_input =
  qt_tile :: tile
  qt_offset :: "32 word"
  qt_count :: "32 word"

text \<open>
  \<open>deserialize_feature\<close> (with the coding vector), \<open>serialize_feature\<close> (with the coding
  map) and \<open>make_quad_tree\<close> are not among the sources and are parameters, next to the
  two that \<open>find_best_tile\<close> takes.
\<close>

record pack_env =
  pe_mk_spec :: "tile \<Rightarrow> tile_spec"
  pe_bounding_box :: "fixed_geometry \<Rightarrow> fixed_box"
  deserialize_feature :: "bytes \<Rightarrow> feature option"
  serialize_feature :: "feature \<Rightarrow> bytes"
  make_quad_tree :: "tile \<Rightarrow> quad_tree_input list \<Rightarrow> bytes"

text \<open>The body of the first loop: one input string becomes a packable feature in its bucket.\<close>

definition bucket_feature ::
  "pack_env \<Rightarrow> tile \<Rightarrow> packable_feature list list \<Rightarrow> bytes \<Rightarrow>
   failure + packable_feature list list" where
  "bucket_feature env root features_by_min_z str =
     (case deserialize_feature env str of
        None \<Rightarrow> Inl (Verify_failed ''feature must be valid (!?)'')
      | Some f \<Rightarrow>
          (let str2 = serialize_feature env f in
           case find_best_tile (pe_mk_spec env) (pe_bounding_box env) root f of
             Inl e \<Rightarrow> Inl e
           | Inr best_tile \<Rightarrow>
               (let z = unat (max (tile_z root) (fst (zoom_levels f)) - tile_z root) in
                if \<not> z < length features_by_min_z then Inl Out_of_range
                else
                  (case make_quad_key root best_tile of
                     Inl e \<Rightarrow> Inl e
                   | Inr quad_key \<Rightarrow>
                       Inr (features_by_min_z
                              [z := features_by_min_z ! z @
                                 [\<lparr>pf_quad_key = quad_key, pf_best_tile = best_tile,
                                   pf_feature = str2\<rparr>]])))))"

fun bucket_features ::
  "pack_env \<Rightarrow> tile \<Rightarrow> packable_feature list list \<Rightarrow> bytes list \<Rightarrow>
   failure + packable_feature list list" where
  "bucket_features env root features_by_min_z [] = Inr features_by_min_z"
| "bucket_features env root features_by_min_z (str # strings) =
     (case bucket_feature env root features_by_min_z str of
        Inl e \<Rightarrow> Inl e
      | Inr features_by_min_z' \<Rightarrow> bucket_features env root features_by_min_z' strings)"

text \<open>
  \<open>utl::equal_ranges\<close> (from the utl library) sorts the bucket by the quad key and calls
  its function on every run of features with the same key. \<open>std::sort\<close> may leave the
  features of a run in any order; the model keeps them in the order they came in.
\<close>

function group_runs :: "('a \<Rightarrow> 'k) \<Rightarrow> 'a list \<Rightarrow> 'a list list" where
  "group_runs key [] = []"
| "group_runs key (x # xs) =
     (x # takeWhile (\<lambda>y. key y = key x) xs)
       # group_runs key (dropWhile (\<lambda>y. key y = key x) xs)"
  by pat_completeness auto
termination
  by (relation "measure (\<lambda>(key, xs). length xs)")
     (auto simp: length_dropWhile_le less_Suc_eq_le)

definition equal_ranges :: "packable_feature list \<Rightarrow> packable_feature list list" where
  "equal_ranges features = group_runs pf_quad_key (sort_key pf_quad_key features)"

text \<open>
  The function called on every run: append its features as one span and note the input of
  the quad-tree.
\<close>

fun append_ranges ::
  "bytes \<Rightarrow> packable_feature list list \<Rightarrow> failure + (quad_tree_input list \<times> bytes)" where
  "append_ranges buf [] = Inr ([], buf)"
| "append_ranges buf (run # runs) =
     (case append_span buf (map pf_feature run) of
        Inl e \<Rightarrow> Inl e
      | Inr (offset, buf') \<Rightarrow>
          (case append_ranges buf' runs of
             Inl e \<Rightarrow> Inl e
           | Inr (inputs, buf'') \<Rightarrow>
               Inr (\<lparr>qt_tile = pf_best_tile (hd run), qt_offset = offset, qt_count = 1\<rparr>
                      # inputs, buf'')))"

text \<open>
  The loop over the buckets. Next to the buffer and the quad-trees the model keeps the
  inputs each quad-tree was made from.
\<close>

fun pack_buckets ::
  "pack_env \<Rightarrow> tile \<Rightarrow> bytes \<Rightarrow> packable_feature list list \<Rightarrow>
   failure + (bytes list \<times> quad_tree_input list list \<times> bytes)" where
  "pack_buckets env root buf [] = Inr ([], [], buf)"
| "pack_buckets env root buf (features # buckets) =
     (if features = [] then
        (case pack_buckets env root buf buckets of
           Inl e \<Rightarrow> Inl e
         | Inr (quad_trees, inputs, buf') \<Rightarrow> Inr ([] # quad_trees, [] # inputs, buf'))
      else
        (case append_ranges buf (equal_ranges features) of
           Inl e \<Rightarrow> Inl e
         | Inr (quad_tree_input, buf') \<Rightarrow>
             (case pack_buckets env root buf' buckets of
                Inl e \<Rightarrow> Inl e
              | Inr (quad_trees, inputs, buf'') \<Rightarrow>
                  Inr (make_quad_tree env root quad_tree_input # quad_trees,
                       quad_tree_input # inputs, buf''))))"

text \<open>
  The closing statement: the quad-trees that are not empty are appended, their offsets
  are written as the index, and the offset of the index goes into the reserved slot.
\<close>

fun append_quad_trees :: "bytes \<Rightarrow> bytes list \<Rightarrow> 32 word list \<times> bytes" where
  "append_quad_trees buf [] = ([], buf)"
| "append_quad_trees buf (quad_tree # quad_trees) =
     (if quad_tree = [] then
        (let (offsets, buf') = append_quad_trees buf quad_trees in (0 # offsets, buf'))
      else
        (let (offset, buf1) = append_string buf quad_tree;
             (offsets, buf') = append_quad_trees buf1 quad_trees
         in (offset # offsets, buf')))"

record pack_result =
  pack_buf :: bytes
  pack_inputs :: "quad_tree_input list list"

definition pack_features :: "pack_env \<Rightarrow> tile \<Rightarrow> bytes list \<Rightarrow> failure + pack_result" where
  "pack_features env root strings =
     (case bucket_features env root
             (replicate (unat (kMaxZoomLevel + 1 - tile_z root)) []) strings of
        Inl e \<Rightarrow> Inl e
      | Inr features_by_min_z \<Rightarrow>
          (case pack_buckets env root (packer_init (of_nat (length strings)))
                  features_by_min_z of
             Inl e \<Rightarrow> Inl e
           | Inr (quad_trees, inputs, buf) \<Rightarrow>
               (let (offsets, buf1) = append_quad_trees buf quad_trees;
                    (index_offset, buf2) = append_packed buf1 offsets
                in Inr \<lparr>pack_buf = write_index_offset buf2 index_offset,
                        pack_inputs = inputs\<rparr>)))"

subsection \<open>Reading a pack\<close>

text \<open>
  Modelled from the spec: the reading side of a pack (\<open>unpack_features\<close> and the quad-tree
  lookup of \<open>tiles/db/quad_tree.h\<close> are not among the sources). The payloads of a span
  are prefixed by their lengths as varints and closed by a 0; a span is read from its
  offset on. A read is \<open>None\<close> when the bytes run out.
\<close>

fun read_varint :: "bytes \<Rightarrow> (nat \<times> bytes) option" where
  "read_varint [] = None"
| "read_varint (b # bs) =
     (if b < 128 then Some (unat b, bs)
      else (case read_varint bs of
              None \<Rightarrow> None
            | Some (n, rest) \<Rightarrow> Some (unat b - 128 + 128 * n, rest)))"

lemma read_varint_shorter:
  "read_varint bs = Some (n, rest) \<Longrightarrow> length rest < length bs"
  by (induction bs arbitrary: n rest) (auto split: if_splits option.splits)

function read_span_bytes :: "bytes \<Rightarrow> bytes list option" where
  "read_span_bytes bs =
     (case read_varint bs of
        None \<Rightarrow> None
      | Some (n, rest) \<Rightarrow>
          if n = 0 then Some []
          else if length rest < n then None
          else (case read_span_bytes (drop n rest) of
                  None \<Rightarrow> None
                | Some payloads \<Rightarrow> Some (take n rest # payloads)))"
  by pat_completeness auto
termination
proof (relation "measure length", goal_cases)
  case 1
  show ?case by simp
next
  case (2 bs x2 n rest)
  then have "length rest < length bs" by (auto dest: read_varint_shorter)
  then show ?case by simp
qed

declare read_span_bytes.simps [simp del]

definition read_span :: "bytes \<Rightarrow> 32 word \<Rightarrow> bytes list option" where
  "read_span buf offset =
     (if unat offset \<le> length buf then read_span_bytes (drop (unat offset) buf) else None)"

text \<open>
  Modelled from the spec: a tile descends from another when it is that tile or a direct
  child of a tile that descends from it. The quad-tree made from a list of inputs answers a
  lookup for the tile \<open>L\<close> with the span offsets of the inputs whose best tile is \<open>L\<close> or
  an ancestor of \<open>L\<close>.
\<close>

inductive descends :: "tile \<Rightarrow> tile \<Rightarrow> bool" where
  descends_self: "descends t t"
| descends_child: "descends t u \<Longrightarrow> c \<in> set (direct_children u) \<Longrightarrow> descends t c"

definition quad_lookup :: "quad_tree_input list \<Rightarrow> tile \<Rightarrow> 32 word list" where
  "quad_lookup inputs L = map qt_offset (filter (\<lambda>e. descends (qt_tile e) L) inputs)"

text \<open>
  The span offsets a pack holds, bucket by bucket, and the payloads the packer makes of
  its input strings: each string deserialized and serialized again.
\<close>

definition span_offsets :: "pack_result \<Rightarrow> 32 word list" where
  "span_offsets out = concat (map (map qt_offset) (pack_inputs out))"

definition payloads :: "pack_env \<Rightarrow> bytes list \<Rightarrow> bytes list" where
  "payloads env strings =
     List.map_filter (\<lambda>str. map_option (serialize_feature env) (deserialize_feature env str))
       strings"

text \<open>
  The bytes of a span, and the offsets of spans laid out one after the other from the
  position \<open>n\<close> on.
\<close>

definition encode_span :: "bytes list \<Rightarrow> bytes" where
  "encode_span span = concat (map (\<lambda>p. write_varint (length p) @ p) span) @ write_varint 0"

fun offsets_from :: "nat \<Rightarrow> bytes list list \<Rightarrow> nat list" where
  "offsets_from n [] = []"
| "offsets_from n (span # spans) = n # offsets_from (n + length (encode_span span)) spans"

definition bucket_spans :: "packable_feature list list \<Rightarrow> bytes list list" where
  "bucket_spans buckets =
     concat (map (\<lambda>features. map (map pf_feature) (equal_ranges features)) buckets)"

text \<open>
  Example data for the packer: a string of two bytes deserializes to a feature with the
  first byte as its id and the second as its minimum zoom, a point at (3, 4) when the id
  is even and a line from (6, 6) to (14, 14) when it is odd; a feature serializes to its
  id, 32 times over; the quad-tree lists the offsets of its inputs.
\<close>

definition example_pack_env :: pack_env where
  "example_pack_env =
     \<lparr>pe_mk_spec = grid_spec,
      pe_bounding_box = (\<lambda>g. case g of
          Fixed_point p \<Rightarrow> \<lparr>min_corner = p, max_corner = p\<rparr>
        | _ \<Rightarrow> box_6_14 g),
      deserialize_feature = (\<lambda>s. case s of
          [a, b] \<Rightarrow> Some \<lparr>feature_id = ucast a, feature_layer = 0,
                         zoom_levels = (ucast b, 20), meta = [],
                         geometry = (if \<not> bit a 0 then Fixed_point \<lparr>x_c = 3, y_c = 4\<rparr>
                                     else geometry line_6_14)\<rparr>
        | _ \<Rightarrow> None),
      serialize_feature = (\<lambda>f. replicate 32 (ucast (feature_id f))),
      make_quad_tree = (\<lambda>root inputs. map (\<lambda>e. ucast (qt_offset e)) inputs)\<rparr>"

definition example_strings :: "bytes list" where
  "example_strings = [[1, 0], [2, 0], [3, 5]]"

definition example_pack_result :: pack_result where
  "example_pack_result =
     \<lparr>pack_buf =
        [3, 0, 0, 0, 113, 0, 0, 0]
        @ 32 # replicate 32 1 @ [0]
        @ 32 # replicate 32 2 @ [0]
        @ 32 # replicate 32 3 @ [0]
        @ [8, 42, 76]
        @ [110, 0, 0, 0, 0, 112, 0, 0, 0, 0, 0, 0, 0, 0, 0, 0, 0, 0, 0, 0, 0],
      pack_inputs =
        [[\<lparr>qt_tile = mk_tile 0 0 0, qt_offset = 8, qt_count = 1\<rparr>,
          \<lparr>qt_tile = mk_tile 0 0 20, qt_offset = 42, qt_count = 1\<rparr>],
         [], [], [], [],
         [\<lparr>qt_tile = mk_tile 0 0 0, qt_offset = 76, qt_count = 1\<rparr>],
         [], [], [], [], [], [], [], [], [], [], [], [], [], [], []]\<rparr>"

text \<open>
  Example data: a list of input strings that makes a pack of more than \<open>2 ^ 32\<close> bytes,
  \<open>2 ^ 27\<close> times the string of a line and then the string of a point.
\<close>

definition many :: nat where
  "many = 134217728"

definition many_strings :: "bytes list" where
  "many_strings = replicate many [1, 0] @ [[2, 0]]"

text \<open>
  The two packable features that \<open>many_strings\<close> gives: the line, kept at the packed tile,
  and the point, at a tile of the deepest zoom level.
\<close>

definition pf_line :: packable_feature where
  "pf_line = \<lparr>pf_quad_key = [], pf_best_tile = mk_tile 0 0 0, pf_feature = replicate 32 1\<rparr>"

definition pf_point :: packable_feature where
  "pf_point = \<lparr>pf_quad_key = replicate 21 0, pf_best_tile = mk_tile 0 0 20,
                 pf_feature = replicate 32 2\<rparr>"

section \<open>Properties of shift\<close>

lemma delta_z_unat:
  assumes "z \<le> (20 :: 32 word)"
  shows "unat (20 - z) = 20 - unat z"
proof -
  have "unat z \<le> 20" using assms by (simp add: word_le_nat_alt)
  then show ?thesis by (simp add: unat_sub_if' word_le_nat_alt assms)
qed

lemma sint_signed_drop_bit_div:
  "sint (signed_drop_bit n (w :: 64 word)) = sint w div 2 ^ n"
  by (simp add: sint_signed_drop_bit_eq drop_bit_eq_div)

lemma shift_point_divides:
  assumes "z \<le> 20"
  shows "map sint (coords (shift (Fixed_point p) z)) =
         map (div_pow2 (20 - unat z)) (coords (Fixed_point p))"
  using delta_z_unat [OF assms]
  by (simp add: shift_def shift_xy_def div_pow2_def sint_signed_drop_bit_div)

lemma shift_polyline_divides:
  assumes "z \<le> 20"
  shows "map sint (coords (shift (Fixed_polyline ls) z)) =
         map (div_pow2 (20 - unat z)) (coords (Fixed_polyline ls))"
  using delta_z_unat [OF assms]
  by (simp add: shift_def shift_polyline_def shift_xy_def div_pow2_def
      sint_signed_drop_bit_div map_concat comp_def)

text \<open>
  C2: for every geometry, polygons included, and every zoom \<open>z \<le> 20\<close>, \<open>shift\<close>
  divides every coordinate by \<open>2 ^ (20 - z)\<close>. The point and polyline overloads do
  (\<open>shift_point_divides\<close>, \<open>shift_polyline_divides\<close>); the polygon overload has an
  empty body. At zoom 19 the ring below keeps the coordinates 4096 and 8192, where the
  quotients by 2 are 2048 and 4096.
\<close>

theorem shift_polygon_unshifted:
  "shift (Fixed_polygon
            [\<lparr>x_c = 0, y_c = 0\<rparr>, \<lparr>x_c = 4096, y_c = 0\<rparr>,
             \<lparr>x_c = 4096, y_c = 8192\<rparr>, \<lparr>x_c = 0, y_c = 0\<rparr>] []) 19
   = Fixed_polygon
            [\<lparr>x_c = 0, y_c = 0\<rparr>, \<lparr>x_c = 4096, y_c = 0\<rparr>,
             \<lparr>x_c = 4096, y_c = 8192\<rparr>, \<lparr>x_c = 0, y_c = 0\<rparr>] []
   \<and> div_pow2 (20 - 19) 4096 = 2048
   \<and> div_pow2 (20 - 19) 8192 = 4096
   \<and> shift (Fixed_point \<lparr>x_c = 4096, y_c = 8192\<rparr>) 19
       = Fixed_point \<lparr>x_c = 2048, y_c = 4096\<rparr>"
  by code_simp

section \<open>Properties of the prepare scheduler\<close>

lemma batch_stride_low:
  assumes "zc \<le> 8"
  shows "batch_stride zc = Inr (2 ^ (8 - unat zc))"
proof -
  have le: "unat zc \<le> 8" using assms by (simp add: word_le_nat_alt)
  then have "unat (8 - zc) = 8 - unat zc"
    by (simp add: unat_sub_if')
  moreover have "max (8 - zc) 0 = 8 - zc" by (simp add: max_def)
  ultimately show ?thesis
    by (simp add: batch_stride_def batch_exponent_def Let_def)
qed

lemma batch_exponent_high:
  assumes "8 < zc"
  shows "unat (batch_exponent zc) = 2 ^ 32 + 8 - unat zc"
proof -
  have "8 < unat zc" using assms by (simp add: word_less_nat_alt)
  moreover have "max (8 - zc) 0 = 8 - zc" by (simp add: max_def)
  ultimately show ?thesis
    by (simp add: batch_exponent_def unat_sub_if')
qed

text \<open>
  C4: for every current zoom \<open>zc \<le> max_z\<close> the batch loop steps with stride
  \<open>2 ^ max (8 - zc) 0\<close>, which is 1 from zoom 8 on. The stride is
  \<open>2 ^ (8 - zc)\<close> up to zoom 8 (\<open>batch_stride_low\<close>). At zoom 9 the unsigned
  difference \<open>8u - 9\<close> wraps to 4294967295, the maximum with \<open>0u\<close> keeps it, the shift is
  undefined, and \<open>get_batch\<close> has no stride of 1 to go by after its first tile.
\<close>

theorem get_batch_zoom_9_stride:
  "batch_stride 8 = Inr 1
   \<and> batch_exponent 9 = 4294967295
   \<and> batch_stride 9 = Inl Undefined_shift
   \<and> get_batch (\<lambda>r z. r)
        \<lparr>max_zoomlevel = 10, curr_zoomlevel = 9,
         base_range = [mk_tile 0 0 9, mk_tile 1 0 9, mk_tile 2 0 9],
         curr_range = [mk_tile 0 0 9, mk_tile 1 0 9, mk_tile 2 0 9],
         stats = replicate 11 prepare_stats0\<rparr>
       = Inl Undefined_shift"
proof -
  have e9: "batch_exponent 9 = 4294967295"
    by (simp add: batch_exponent_def)
  have s9: "batch_stride 9 = Inl Undefined_shift"
    by (simp add: batch_stride_def e9)
  have s8: "batch_stride 8 = Inr 1"
    by (simp add: batch_stride_def batch_exponent_def)
  have "get_batch_loop (\<lambda>r z. r) 0
        \<lparr>max_zoomlevel = 10, curr_zoomlevel = 9,
         base_range = [mk_tile 0 0 9, mk_tile 1 0 9, mk_tile 2 0 9],
         curr_range = [mk_tile 0 0 9, mk_tile 1 0 9, mk_tile 2 0 9],
         stats = replicate 11 prepare_stats0\<rparr> []
       = Inl Undefined_shift"
    by (subst get_batch_loop.simps) (simp add: batch_body_def Let_def s9)
  with e9 s9 s8 show ?thesis by (simp add: get_batch_def)
qed

text \<open>
  What \<open>finish\<close> does to the counters of a zoom level, whatever the sizes: it counts
  every call for a tile of the level as finished, and it counts the tile as empty exactly
  when its size is not 0.
\<close>

lemma finish_stats:
  assumes "finish m t sz dur = Inr (lg, m')" and "z < length (stats m)"
  shows "length (stats m') = length (stats m)"
    and "n_finished (stats m' ! z) =
         n_finished (stats m ! z) + (if unat (tile_z t) = z then 1 else 0)"
    and "n_empty (stats m' ! z) =
         n_empty (stats m ! z) + (if unat (tile_z t) = z \<and> sz \<noteq> 0 then 1 else 0)"
  using assms by (auto simp: finish_def Let_def nth_list_update split: if_splits)

lemma finish_all_counts:
  assumes "finish_all m calls = Inr (lg, m')" and "z < length (stats m)"
  shows "length (stats m') = length (stats m)
       \<and> n_finished (stats m' ! z) =
           n_finished (stats m ! z)
           + of_nat (length (filter (\<lambda>(t, sz, dur). unat (tile_z t) = z) calls))
       \<and> n_empty (stats m' ! z) =
           n_empty (stats m ! z)
           + of_nat (length (filter (\<lambda>(t, sz, dur). unat (tile_z t) = z \<and> sz \<noteq> 0) calls))"
  using assms
proof (induction calls arbitrary: m lg)
  case Nil
  then show ?case by simp
next
  case (Cons c calls)
  obtain t sz dur where c: "c = (t, sz, dur)" by (cases c)
  from Cons.prems c obtain lg1 m1 lg2 where
    1: "finish m t sz dur = Inr (lg1, m1)" and
    2: "finish_all m1 calls = Inr (lg2, m')"
    by (auto split: sum.splits)
  note f = finish_stats [OF 1 Cons.prems(2)]
  from f(1) Cons.prems(2) have z1: "z < length (stats m1)" by simp
  from Cons.IH [OF 2 z1] f show ?case
    by (simp add: c)
qed

text \<open>
  C10: once the tiles of a zoom level are finished, \<open>empty\<close> is the number of its tiles
  whose result had size 0. In the run below zoom level 1 finishes two tiles of size 0 and
  one of size 100: two tiles are empty, and the counter ends at 1, having counted the tile
  that is not. \<open>finished\<close> ends at 3, the number of calls.
\<close>

theorem finish_counts_nonempty_as_empty:
  "map_sum id (\<lambda>(lg, m'). (n_finished (stats m' ! 1), n_empty (stats m' ! 1)))
     (finish_all
        \<lparr>max_zoomlevel = 1, curr_zoomlevel = 2, base_range = [], curr_range = [],
         stats = [prepare_stats0\<lparr>n_total := 1\<rparr>, prepare_stats0\<lparr>n_total := 3\<rparr>]\<rparr>
        [(mk_tile 0 0 1, 0, 5), (mk_tile 1 0 1, 0, 5), (mk_tile 0 1 1, 100, 5)])
   = Inr (3, 1)"
  by (simp add: finish_def Let_def mk_tile_def prepare_stats0_def)

section \<open>Properties of find_best_tile\<close>

text \<open>
  The loop over the children leaves early as soon as a second child matches: with a match
  already noted and one more to come, or with two to come.
\<close>

lemma scan_children_two_matches:
  assumes "(next_best \<noteq> None \<and>
            1 \<le> length (filter (\<lambda>c. \<not> box_apart fb (insert_bounds (mk_spec c))) children))
           \<or> 2 \<le> length (filter (\<lambda>c. \<not> box_apart fb (insert_bounds (mk_spec c))) children)"
  shows "scan_children mk_spec fb children next_best = None"
  using assms
proof (induction children arbitrary: next_best)
  case Nil
  then show ?case by simp
next
  case (Cons child children)
  show ?case
  proof (cases "box_apart fb (insert_bounds (mk_spec child))")
    case True
    with Cons.prems have
      "(next_best \<noteq> None \<and>
        1 \<le> length (filter (\<lambda>c. \<not> box_apart fb (insert_bounds (mk_spec c))) children))
       \<or> 2 \<le> length (filter (\<lambda>c. \<not> box_apart fb (insert_bounds (mk_spec c))) children)"
      by simp
    then have "scan_children mk_spec fb children next_best = None"
      by (rule Cons.IH)
    with True show ?thesis by simp
  next
    case False
    show ?thesis
    proof (cases next_best)
      case None
      with False Cons.prems have
        "1 \<le> length (filter (\<lambda>c. \<not> box_apart fb (insert_bounds (mk_spec c))) children)"
        by simp
      then have "scan_children mk_spec fb children (Some child) = None"
        by (intro Cons.IH) simp
      with False None show ?thesis by simp
    next
      case (Some t)
      with False show ?thesis by simp
    qed
  qed
qed

text \<open>
  C5: when the bounding box of a feature meets the insert bounds of two or more direct
  children of \<open>T\<close>, \<open>find_best_tile\<close> returns \<open>T\<close> itself.
\<close>

theorem find_best_tile_straddle:
  assumes "2 \<le> length (filter
             (\<lambda>c. \<not> box_apart (bounding_box (geometry f)) (insert_bounds (mk_spec c)))
             (direct_children T))"
  shows "find_best_tile mk_spec bounding_box T f = Inr T"
proof -
  have "scan_children mk_spec (bounding_box (geometry f)) (direct_children T) None = None"
    using assms by (intro scan_children_two_matches) simp
  then show ?thesis
    by (simp add: find_best_tile_def Let_def find_best_tile_loop.simps [of _ _ T])
qed

text \<open>
  The packing scenario of the specification: at the root tile, with children that are
  8 units wide, the box from (6, 6) to (14, 14) meets all four children.
\<close>

theorem find_best_tile_straddle_witness:
  "2 \<le> length (filter
      (\<lambda>c. \<not> box_apart (box_6_14 (geometry line_6_14)) (insert_bounds (grid_spec c)))
      (direct_children (mk_tile 0 0 0)))
   \<and> find_best_tile grid_spec box_6_14 (mk_tile 0 0 0) line_6_14 = Inr (mk_tile 0 0 0)"
proof -
  have h: "2 \<le> length (filter
      (\<lambda>c. \<not> box_apart (box_6_14 (geometry line_6_14)) (insert_bounds (grid_spec c)))
      (direct_children (mk_tile 0 0 0)))"
    by code_simp
  show ?thesis
    using h find_best_tile_straddle
      [of box_6_14 line_6_14 grid_spec "mk_tile 0 0 0", OF h] by simp
qed

section \<open>Properties of the HTTP front end\<close>

text \<open>
  C7, as stated, asks for status 204 on every OPTIONS request. The handler builds its
  reply from \<open>reply::ok\<close>: the one reply it sends does not have status 204.
\<close>

theorem options_route_not_204:
  "\<not> (\<exists>r. r \<in> set (out_replies (options_route example_net example_options))
         \<and> status_code (reply_status r) = 204)"
  by (simp add: options_route_def stock_reply_def add_cors_headers_def Let_def)

text \<open>
  C7, amended: every OPTIONS request is answered by exactly one reply, the stock reply of
  status \<open>reply::ok\<close> (200) with the CORS headers added to its headers.
\<close>

theorem options_route_ok_with_cors:
  "out_replies (options_route lib req) =
     [\<lparr>reply_status = reply_ok,
       reply_headers = stock_headers lib reply_ok @ cors_headers lib,
       reply_content = stock_content lib reply_ok\<rparr>]
   \<and> status_code reply_ok = 200"
  by (simp add: options_route_def stock_reply_def add_cors_headers_def Let_def)

text \<open>
  C8: the claim asks for a reply of status 500 with an empty body whenever the render
  fails. On the request for the tile 3/1/2 with a render that throws, the handler sends
  no such reply.
\<close>

theorem tile_route_failure_no_500:
  "\<not> (\<exists>r. r \<in> set (out_replies
                      (tile_route example_net (\<lambda>t. Inl (Std_exception ''no such tile''))
                         example_get))
         \<and> status_code (reply_status r) = 500 \<and> reply_content r = [])"
  by (simp add: tile_route_def Let_def split: sum.splits)

text \<open>
  The two paths of the tile route. When the render returns the bytes of the tile, the
  handler calls \<open>cb\<close> with one reply of status \<open>reply::ok\<close> that carries them. When the
  render throws, the handler prints the line of the matching \<open>catch\<close> block between its
  opening and closing lines, and \<open>cb\<close> is never called: the request is left without a
  reply.
\<close>

lemma tile_route_success_answered:
  assumes "request_tile (req_path_params req) = Inr t"
    and "render_tile t = Inr bytes"
  shows "out_replies (tile_route lib render_tile req) =
           [\<lparr>reply_status = reply_ok,
             reply_headers = stock_headers lib reply_ok @ cors_headers lib,
             reply_content = bytes\<rparr>]"
  using assms by (simp add: tile_route_def Let_def stock_reply_def add_cors_headers_def)


lemma tile_route_failure_logged_unanswered:
  assumes "request_tile (req_path_params req) = Inr t"
    and "render_tile t = Inl e"
  shows "out_replies (tile_route lib render_tile req) = []
         \<and> out_log (tile_route lib render_tile req) =
             [''received a request: '' @ req_uri req, catch_line e, ''done:'' @ req_uri req]"
  using assms by (simp add: tile_route_def Let_def)

text \<open>The request for the tile 3/1/2 with a render that throws.\<close>

lemma tile_route_failure_example:
  "request_tile (req_path_params example_get) = Inr (mk_tile 1 2 3)
   \<and> out_replies (tile_route example_net (\<lambda>t. Inl (Std_exception ''no such tile''))
        example_get) = []
   \<and> out_log (tile_route example_net (\<lambda>t. Inl (Std_exception ''no such tile''))
        example_get) =
        [''received a request: /3/1/2.mvt'', ''unhandled error: no such tile'',
         ''done:/3/1/2.mvt'']"
proof -
  have h: "request_tile (req_path_params example_get) = Inr (mk_tile 1 2 3)"
    by (simp add: request_tile_def example_get_def stoul_def is_digit_def)
  have r: "(\<lambda>t. Inl (Std_exception ''no such tile'') :: thrown + string) (mk_tile 1 2 3)
           = Inl (Std_exception ''no such tile'')"
    by simp
  show ?thesis
    using h tile_route_failure_logged_unanswered [OF h r, of example_net]
    by (simp add: catch_line_def example_get_def)
qed

section \<open>Properties of the tile builder\<close>

lemma string_fields_append:
  "string_fields tg (xs @ ys) = string_fields tg xs @ string_fields tg ys"
  by (induction tg xs rule: string_fields.induct) auto

lemma uint32_fields_append:
  "uint32_fields tg (xs @ ys) = uint32_fields tg xs @ uint32_fields tg ys"
  by (induction tg xs rule: uint32_fields.induct) auto

lemma string_fields_feature_messages:
  "list_all is_feature_message xs \<Longrightarrow> string_fields tg xs = []"
  by (induction tg xs rule: string_fields.induct) auto

lemma uint32_fields_feature_messages:
  "list_all is_feature_message xs \<Longrightarrow> uint32_fields tg xs = []"
  by (induction tg xs rule: uint32_fields.induct) auto

lemma string_fields_keys:
  "tg \<noteq> tg' \<Longrightarrow> string_fields tg (map (Pb_string tg') ss) = []"
  by (induction ss) auto

lemma uint32_fields_strings:
  "uint32_fields tg (map (Pb_string tg') ss) = []"
  by (induction ss) auto

lemma string_fields_values:
  "string_fields tg (map (\<lambda>v. Pb_message tg' (g v)) vs) = []"
  by (induction vs) auto

lemma uint32_fields_values:
  "uint32_fields tg (map (\<lambda>v. Pb_message tg' (g v)) vs) = []"
  by (induction vs) auto

lemma layer_finish_fields:
  assumes "layer_inv name lb"
  shows "string_fields Layer_required_string_name (layer_finish lb) = [name]"
    and "uint32_fields Layer_required_uint32_version (layer_finish lb) = [2]"
    and "uint32_fields Layer_optional_uint32_extent (layer_finish lb) = [4096]"
proof -
  from assms obtain rest where
    buf: "lb_buf lb = layer_header name @ rest" and rest: "list_all is_feature_message rest"
    by (auto simp: layer_inv_def)
  show "string_fields Layer_required_string_name (layer_finish lb) = [name]"
    using rest
    by (simp add: layer_finish_def buf string_fields_append string_fields_feature_messages
        string_fields_keys string_fields_values layer_header_def)
  show "uint32_fields Layer_required_uint32_version (layer_finish lb) = [2]"
    using rest
    by (simp add: layer_finish_def buf uint32_fields_append uint32_fields_feature_messages
        uint32_fields_strings uint32_fields_values layer_header_def)
  show "uint32_fields Layer_optional_uint32_extent (layer_finish lb) = [4096]"
    using rest
    by (simp add: layer_finish_def buf uint32_fields_append uint32_fields_feature_messages
        uint32_fields_strings uint32_fields_values layer_header_def)
qed

lemma mk_layer_builder_inv: "layer_inv name (mk_layer_builder name)"
  by (simp add: layer_inv_def mk_layer_builder_def layer_header_def)

lemma layer_add_feature_inv:
  assumes "layer_inv name lb"
  shows "layer_inv name (layer_add_feature gk spec lb f)"
proof -
  from assms obtain rest where
    buf: "lb_buf lb = layer_header name @ rest" and rest: "list_all is_feature_message rest"
    by (auto simp: layer_inv_def)
  show ?thesis
    using rest
    by (auto simp: layer_add_feature_def layer_inv_def buf
        split: option.splits prod.splits)
qed

lemma write_geometry_None:
  "write_geometry gk spec (geometry f) = None \<longleftrightarrow> \<not> yields_geometry gk spec f"
  by (simp add: write_geometry_def yields_geometry_def Let_def)

lemma layer_add_feature_has_geometry:
  "has_geometry (layer_add_feature gk spec lb f) \<longleftrightarrow>
     has_geometry lb \<or> yields_geometry gk spec f"
  using write_geometry_None [of gk spec f]
  by (auto simp: layer_add_feature_def in_z_range_def split: option.splits prod.splits)

lemma get_or_create_keys:
  assumes "sorted_wrt (<) (map fst bs)"
  shows "set (map fst (get_or_create name g bs)) = insert name (set (map fst bs))
         \<and> sorted_wrt (<) (map fst (get_or_create name g bs))"
  using assms
proof (induction name g bs rule: get_or_create.induct)
  case (1 name g)
  then show ?case by simp
next
  case (2 name g k b rest)
  then show ?case by (auto simp: not_less)
qed

lemma map_of_sorted_less:
  fixes bs :: "(string \<times> 'b) list"
  shows "\<forall>k \<in> set (map fst bs). name < k \<Longrightarrow> map_of bs name = None"
  by (induction bs) auto

lemma get_or_create_map_of:
  assumes "sorted_wrt (<) (map fst bs)"
  shows "map_of (get_or_create name g bs) =
         (map_of bs)(name \<mapsto> g (case map_of bs name of None \<Rightarrow> mk_layer_builder name | Some b \<Rightarrow> b))"
  using assms
proof (induction name g bs rule: get_or_create.induct)
  case (1 name g)
  then show ?case by simp
next
  case (2 name g k b rest)
  show ?case
  proof (cases "name = k")
    case True
    then show ?thesis by (auto simp: fun_eq_iff)
  next
    case False
    show ?thesis
    proof (cases "name < k")
      case True
      with 2(2) have "\<forall>k' \<in> set (map fst rest). name < k'" by auto
      then have "map_of rest name = None"
        by (rule map_of_sorted_less)
      with True False show ?thesis by (auto simp: fun_eq_iff)
    next
      case nl: False
      from 2(2) have sr: "sorted_wrt (<) (map fst rest)" by simp
      have "map_of (get_or_create name g rest) =
         (map_of rest)(name \<mapsto> g (case map_of rest name of None \<Rightarrow> mk_layer_builder name | Some b \<Rightarrow> b))"
        by (rule 2(1) [OF False nl sr])
      with False nl show ?thesis by (auto simp: fun_eq_iff)
    qed
  qed
qed


lemma add_feature_inv:
  assumes "builders_inv gk (tb_spec tb) seen (builders tb)"
  shows "builders_inv gk (tb_spec tb) (seen @ [f]) (builders (add_feature gk tb f))
         \<and> tb_spec (add_feature gk tb f) = tb_spec tb
         \<and> tb_config (add_feature gk tb f) = tb_config tb"
proof (cases "map_of (meta f) ''layer''")
  case None
  with assms show ?thesis
    by (auto simp: add_feature_def builders_inv_def)
next
  case (Some name)
  let ?g = "\<lambda>lb. layer_add_feature gk (tb_spec tb) lb f"
  let ?bs = "builders tb"
  from assms have s: "sorted_wrt (<) (map fst ?bs)"
    by (simp add: builders_inv_def)
  have bs': "builders (add_feature gk tb f) = get_or_create name ?g ?bs"
    by (simp add: add_feature_def Some)
  have m: "map_of (get_or_create name ?g ?bs) =
         (map_of ?bs)(name \<mapsto> ?g (case map_of ?bs name of None \<Rightarrow> mk_layer_builder name | Some b \<Rightarrow> b))"
    by (rule get_or_create_map_of [OF s])
  have s': "sorted_wrt (<) (map fst (get_or_create name ?g ?bs))"
    using get_or_create_keys [OF s] by simp
  have old: "layer_inv name (case map_of ?bs name of None \<Rightarrow> mk_layer_builder name | Some b \<Rightarrow> b)"
    using assms by (auto simp: builders_inv_def mk_layer_builder_inv split: option.splits)
  have oldg: "has_geometry (case map_of ?bs name of None \<Rightarrow> mk_layer_builder name | Some b \<Rightarrow> b)
      \<longleftrightarrow> (\<exists>f \<in> set seen. map_of (meta f) ''layer'' = Some name \<and> yields_geometry gk (tb_spec tb) f)"
  proof (cases "map_of ?bs name")
    case None
    with assms have "\<not> (\<exists>f \<in> set seen. map_of (meta f) ''layer'' = Some name)"
      by (auto simp: builders_inv_def)
    with None show ?thesis by (auto simp: mk_layer_builder_def)
  next
    case (Some b)
    with assms show ?thesis by (auto simp: builders_inv_def)
  qed
  have "builders_inv gk (tb_spec tb) (seen @ [f]) (get_or_create name ?g ?bs)"
    unfolding builders_inv_def
  proof (intro conjI allI impI ballI)
    show "sorted_wrt (<) (map fst (get_or_create name ?g ?bs))" by (rule s')
  next
    fix k b assume kb: "map_of (get_or_create name ?g ?bs) k = Some b"
    show "layer_inv k b"
    proof (cases "k = name")
      case True
      with kb m old show ?thesis by (auto intro: layer_add_feature_inv)
    next
      case False
      with kb m assms show ?thesis by (auto simp: builders_inv_def)
    qed
    show "has_geometry b \<longleftrightarrow>
           (\<exists>f' \<in> set (seen @ [f]). map_of (meta f') ''layer'' = Some k \<and> yields_geometry gk (tb_spec tb) f')"
    proof (cases "k = name")
      case True
      with kb m have "b = ?g (case map_of ?bs name of None \<Rightarrow> mk_layer_builder name | Some b \<Rightarrow> b)"
        by auto
      then show ?thesis
        using oldg True Some by (auto simp: layer_add_feature_has_geometry)
    next
      case False
      with kb m have "map_of ?bs k = Some b" by auto
      with assms False Some show ?thesis by (auto simp: builders_inv_def)
    qed
  next
    fix f' k assume "f' \<in> set (seen @ [f])" and "map_of (meta f') ''layer'' = Some k"
    with assms Some m show "map_of (get_or_create name ?g ?bs) k \<noteq> None"
      by (auto simp: builders_inv_def)
  qed
  then show ?thesis by (simp add: bs') (simp add: add_feature_def Some)
qed

lemma foldl_add_feature_inv:
  assumes "builders_inv gk (tb_spec tb) seen (builders tb)"
  shows "builders_inv gk (tb_spec tb) (seen @ fs) (builders (foldl (add_feature gk) tb fs))
         \<and> tb_spec (foldl (add_feature gk) tb fs) = tb_spec tb
         \<and> tb_config (foldl (add_feature gk) tb fs) = tb_config tb"
  using assms
proof (induction fs arbitrary: tb seen)
  case Nil
  then show ?case by simp
next
  case (Cons f fs)
  from add_feature_inv [OF Cons.prems, where f = f]
  have 1: "builders_inv gk (tb_spec (add_feature gk tb f)) (seen @ [f]) (builders (add_feature gk tb f))"
    and 2: "tb_spec (add_feature gk tb f) = tb_spec tb"
    and 3: "tb_config (add_feature gk tb f) = tb_config tb"
    by simp_all
  from Cons.IH [OF 1] 2 3 show ?case by simp
qed

lemma finish_layers_snd:
  "snd (finish_layers v bs) =
     map (\<lambda>(k, b). Pb_message Tile_repeated_Layer_layers (layer_finish b))
       (filter (\<lambda>(k, b). has_geometry b) bs)"
  by (induction v bs rule: finish_layers.induct) (auto simp: Let_def split: prod.splits)

lemma tile_layers_layer_messages:
  "tile_layers (map (\<lambda>(k, b). Pb_message Tile_repeated_Layer_layers (g b)) bs) = map (\<lambda>(k, b). g b) bs"
  by (induction bs) auto

lemma layer_names_finish:
  assumes "\<forall>(k, b) \<in> set bs. layer_inv k b"
  shows "layer_names (snd (finish_layers v bs)) = map fst (filter (\<lambda>(k, b). has_geometry b) bs)"
  using assms
  by (induction bs)
     (auto simp: finish_layers_snd tile_layers_layer_messages layer_names_def layer_finish_fields)


lemma snd_tile_finish:
  "snd (tile_finish tb) = snd (finish_layers (verbose (tb_config tb)) (builders tb))"
  by (simp add: tile_finish_def split: prod.splits)

text \<open>
  C9: \<open>finish\<close> emits a \<open>Tile\<close> message that holds exactly the layers for which at
  least one added feature yielded geometry after simplify and clip, and every layer it
  emits carries version 2 and extent 4096. The message consists of layer messages only,
  one per such layer, in ascending order of the names.
\<close>

theorem tile_finish_layers:
  "set (layer_names (snd (build_tile gk mk_spec t cfg fs))) =
     {n. \<exists>f \<in> set fs. map_of (meta f) ''layer'' = Some n \<and> yields_geometry gk (mk_spec t) f}
   \<and> sorted_wrt (<) (layer_names (snd (build_tile gk mk_spec t cfg fs)))
   \<and> length (tile_layers (snd (build_tile gk mk_spec t cfg fs))) =
       length (snd (build_tile gk mk_spec t cfg fs))
   \<and> (\<forall>l \<in> set (tile_layers (snd (build_tile gk mk_spec t cfg fs))).
         uint32_fields Layer_required_uint32_version l = [2]
         \<and> uint32_fields Layer_optional_uint32_extent l = [4096])"
proof -
  let ?init = "mk_tile_builder mk_spec t cfg"
  let ?tb = "foldl (add_feature gk) ?init fs"
  let ?bs = "builders ?tb"
  let ?msg = "snd (build_tile gk mk_spec t cfg fs)"
  have "builders_inv gk (tb_spec ?init) [] (builders ?init)"
    by (simp add: builders_inv_def mk_tile_builder_def)
  from foldl_add_feature_inv [OF this, where fs = fs]
  have inv: "builders_inv gk (mk_spec t) fs ?bs"
    by (simp add: mk_tile_builder_def)
  then have s: "sorted_wrt (<) (map fst ?bs)"
    and li: "\<And>k b. map_of ?bs k = Some b \<Longrightarrow> layer_inv k b"
    and hg: "\<And>k b. map_of ?bs k = Some b \<Longrightarrow> has_geometry b \<longleftrightarrow>
           (\<exists>f \<in> set fs. map_of (meta f) ''layer'' = Some k \<and> yields_geometry gk (mk_spec t) f)"
    and ex: "\<And>f k. f \<in> set fs \<Longrightarrow> map_of (meta f) ''layer'' = Some k \<Longrightarrow> map_of ?bs k \<noteq> None"
    unfolding builders_inv_def by blast+
  from s have d: "distinct (map fst ?bs)"
    by (simp add: strict_sorted_iff)
  have mem: "\<And>k b. (k, b) \<in> set ?bs \<longleftrightarrow> map_of ?bs k = Some b"
    using d by (auto dest: map_of_SomeD)
  have all: "\<forall>(k, b) \<in> set ?bs. layer_inv k b"
    using li mem by auto
  have msg: "?msg = map (\<lambda>(k, b). Pb_message Tile_repeated_Layer_layers (layer_finish b))
       (filter (\<lambda>(k, b). has_geometry b) ?bs)"
    by (simp add: build_tile_def snd_tile_finish finish_layers_snd)
  have names: "layer_names ?msg = map fst (filter (\<lambda>(k, b). has_geometry b) ?bs)"
    using layer_names_finish [OF all, of "verbose (tb_config ?tb)"]
    by (simp add: build_tile_def snd_tile_finish)
  have 1: "set (layer_names ?msg) =
     {n. \<exists>f \<in> set fs. map_of (meta f) ''layer'' = Some n \<and> yields_geometry gk (mk_spec t) f}"
  proof (intro set_eqI iffI)
    fix n assume "n \<in> set (layer_names ?msg)"
    then obtain b where "(n, b) \<in> set ?bs" and "has_geometry b"
      by (auto simp: names)
    then show "n \<in> {n. \<exists>f \<in> set fs. map_of (meta f) ''layer'' = Some n \<and> yields_geometry gk (mk_spec t) f}"
      using hg [of n b] mem by auto
  next
    fix n assume "n \<in> {n. \<exists>f \<in> set fs. map_of (meta f) ''layer'' = Some n \<and> yields_geometry gk (mk_spec t) f}"
    then obtain f where f: "f \<in> set fs" "map_of (meta f) ''layer'' = Some n"
      "yields_geometry gk (mk_spec t) f" by auto
    from ex [OF f(1,2)] obtain b where b: "map_of ?bs n = Some b" by auto
    with hg [OF b] f have "has_geometry b" by auto
    with b mem show "n \<in> set (layer_names ?msg)"
      by (force simp: names)
  qed
  have 2: "sorted_wrt (<) (layer_names ?msg)"
    unfolding names using s by (simp add: sorted_wrt_map sorted_wrt_filter)
  have 3: "length (tile_layers ?msg) = length ?msg"
    by (simp add: msg tile_layers_layer_messages)
  have 4: "\<forall>l \<in> set (tile_layers ?msg).
         uint32_fields Layer_required_uint32_version l = [2]
         \<and> uint32_fields Layer_optional_uint32_extent l = [4096]"
    using all by (auto simp: msg tile_layers_layer_messages layer_finish_fields)
  from 1 2 3 4 show ?thesis by blast
qed

text \<open>
  With the example features the road yields geometry, the lake is clipped away, and the
  third feature has no layer: the message holds the road's layer alone.
\<close>

theorem tile_finish_layers_witness:
  "layer_names (snd (build_tile example_kernel grid_draw_spec (mk_tile 0 0 0)
       \<lparr>verbose = True\<rparr> example_features)) = [''road'']
   \<and> build_tile example_kernel grid_draw_spec (mk_tile 0 0 0) \<lparr>verbose = True\<rparr>
       example_features =
       ([''skip invalid feature true'', ''append layer: lake'', ''append layer: road''],
        [Pb_message Tile_repeated_Layer_layers
           [Pb_uint32 Layer_required_uint32_version 2,
            Pb_string Layer_required_string_name ''road'',
            Pb_uint32 Layer_optional_uint32_extent 4096,
            Pb_message Layer_repeated_Feature_features
              [Pb_packed_uint32 Feature_packed_uint32_tags [0, 0]],
            Pb_string Layer_repeated_string_keys ''name'',
            Pb_message Layer_repeated_Value_values
              [Pb_string Value_optional_string_string_value ''A1'']]])
   \<and> map (uint32_fields Layer_required_uint32_version)
        (tile_layers (snd (build_tile example_kernel grid_draw_spec (mk_tile 0 0 0)
           \<lparr>verbose = True\<rparr> example_features))) = [[2]]"
proof -
  have b: "build_tile example_kernel grid_draw_spec (mk_tile 0 0 0) \<lparr>verbose = True\<rparr>
       example_features =
       ([''skip invalid feature true'', ''append layer: lake'', ''append layer: road''],
        [Pb_message Tile_repeated_Layer_layers
           [Pb_uint32 Layer_required_uint32_version 2,
            Pb_string Layer_required_string_name ''road'',
            Pb_uint32 Layer_optional_uint32_extent 4096,
            Pb_message Layer_repeated_Feature_features
              [Pb_packed_uint32 Feature_packed_uint32_tags [0, 0]],
            Pb_string Layer_repeated_string_keys ''name'',
            Pb_message Layer_repeated_Value_values
              [Pb_string Value_optional_string_string_value ''A1'']]])"
    by code_simp
  show ?thesis
    using tile_finish_layers [of example_kernel grid_draw_spec "mk_tile 0 0 0"
        "\<lparr>verbose = True\<rparr>" example_features]
    by (simp add: b layer_names_def)
qed


section \<open>Properties of packing the feature table\<close>


lemma flush_packed:
  assumes "flush P s b = Inr s'"
  shows "c_tile s' = c_tile s \<and> c_features s' = c_features s \<and>
         (c_packed s' = c_packed s \<or>
          (c_features s \<noteq> [] \<and>
           (\<exists>data. c_packed s' = c_packed s @ [(make_feature_key P (c_tile s), data)])))"
  using assms by (auto simp: flush_def split: if_splits sum.splits)

text \<open>
  The collecting loop only deletes, and every pack it adds is keyed by the tile it held
  features for at the start or by the tile of an entry it deleted.
\<close>

lemma collect_packed:
  assumes "collect P entries s = (ev, Inr (s', r))"
  shows "\<exists>dels new.
           ev = map Cursor_del dels \<and>
           c_packed s' = c_packed s @ new \<and>
           (\<forall>(key, data) \<in> set new.
              (c_features s \<noteq> [] \<and> key = make_feature_key P (c_tile s)) \<or>
              (\<exists>k \<in> set dels. key = make_feature_key P (feature_key_to_tile P k))) \<and>
           (c_features s' \<noteq> [] \<longrightarrow>
              (c_features s \<noteq> [] \<and> c_tile s' = c_tile s) \<or>
              (\<exists>k \<in> set dels. c_tile s' = feature_key_to_tile P k))"
  using assms
proof (induction entries arbitrary: s ev)
  case Nil
  then show ?case by auto
next
  case (Cons e rest)
  obtain k v where e: "e = (k, v)" by (cases e)
  let ?t = "feature_key_to_tile P k"
  show ?case
  proof (cases "c_tile s \<noteq> ?t \<and> c_size s \<ge> kPackBatchThreshold")
    case True
    with Cons.prems e have "ev = []" "s' = s" by (auto simp: Let_def)
    then show ?thesis by auto
  next
    case nb: False
    show ?thesis
    proof (cases "c_tile s \<noteq> ?t")
      case True
      with nb Cons.prems e obtain s1 ev1 where
        fl: "flush P s True = Inr s1" and
        rec: "collect P rest (s1\<lparr>c_tile := ?t, c_features := unpack_features P v\<rparr>) = (ev1, Inr (s', r))" and
        ev: "ev = Cursor_del k # ev1"
        by (auto simp: Let_def split: sum.splits prod.splits)
      from Cons.IH [OF rec] obtain dels new where
        d: "ev1 = map Cursor_del dels" and
        p: "c_packed s' = c_packed s1 @ new" and
        keys: "\<forall>(key, data) \<in> set new.
                (\<exists>k \<in> set dels. key = make_feature_key P (feature_key_to_tile P k)) \<or>
                 key = make_feature_key P ?t" and
        last: "c_features s' \<noteq> [] \<longrightarrow>
                 c_tile s' = ?t \<or> (\<exists>k \<in> set dels. c_tile s' = feature_key_to_tile P k)"
        by fastforce
      from flush_packed [OF fl] obtain first where
        f: "c_packed s1 = c_packed s @ first" and
        fk: "\<forall>(key, data) \<in> set first.
               c_features s \<noteq> [] \<and> key = make_feature_key P (c_tile s)"
        by fastforce
      show ?thesis
      proof (intro exI [of _ "k # dels"] exI [of _ "first @ new"] conjI)
        show "ev = map Cursor_del (k # dels)" by (simp add: ev d)
        show "c_packed s' = c_packed s @ first @ new" by (simp add: p f)
        show "\<forall>(key, data) \<in> set (first @ new).
              (c_features s \<noteq> [] \<and> key = make_feature_key P (c_tile s)) \<or>
              (\<exists>k \<in> set (k # dels). key = make_feature_key P (feature_key_to_tile P k))"
          using keys fk by fastforce
        show "c_features s' \<noteq> [] \<longrightarrow>
              (c_features s \<noteq> [] \<and> c_tile s' = c_tile s) \<or>
              (\<exists>k \<in> set (k # dels). c_tile s' = feature_key_to_tile P k)"
          using last by auto
      qed
    next
      case same: False
      with nb Cons.prems e obtain ev1 where
        rec: "collect P rest (s\<lparr>c_features := c_features s @ unpack_features P v\<rparr>) = (ev1, Inr (s', r))" and
        ev: "ev = Cursor_del k # ev1"
        by (auto simp: Let_def split: sum.splits prod.splits)
      from Cons.IH [OF rec] obtain dels new where
        d: "ev1 = map Cursor_del dels" and
        p: "c_packed s' = c_packed s @ new" and
        keys: "\<forall>(key, data) \<in> set new.
                 key = make_feature_key P (c_tile s) \<or>
                (\<exists>k \<in> set dels. key = make_feature_key P (feature_key_to_tile P k))" and
        last: "c_features s' \<noteq> [] \<longrightarrow>
                 c_tile s' = c_tile s \<or> (\<exists>k \<in> set dels. c_tile s' = feature_key_to_tile P k)"
        by fastforce
      show ?thesis
      proof (intro exI [of _ "k # dels"] exI [of _ new] conjI)
        show "ev = map Cursor_del (k # dels)" by (simp add: ev d)
        show "c_packed s' = c_packed s @ new" by (rule p)
        show "\<forall>(key, data) \<in> set new.
              (c_features s \<noteq> [] \<and> key = make_feature_key P (c_tile s)) \<or>
              (\<exists>k \<in> set (k # dels). key = make_feature_key P (feature_key_to_tile P k))"
          using keys same by fastforce
        show "c_features s' \<noteq> [] \<longrightarrow>
              (c_features s \<noteq> [] \<and> c_tile s' = c_tile s) \<or>
              (\<exists>k \<in> set (k # dels). c_tile s' = feature_key_to_tile P k)"
          using last same by auto
      qed
    qed
  qed
qed

text \<open>
  C3, amended: in every pass of the packing loop the raw entries are deleted in a first
  transaction, which is committed and followed by a sync; the packs are written in a second
  transaction, and every pack written belongs to the tile of an entry the first transaction
  deleted.
\<close>

theorem pack_batch_deletes_then_writes:
  assumes "pack_batch P db resume_key = (ev, Batch_done packed resume')"
  shows "\<exists>dels.
           ev = Txn_begin # map Cursor_del dels @ [Txn_commit, Env_sync, Txn_begin]
                  @ map (\<lambda>(key, data). Txn_put key data) packed @ [Txn_commit]
           \<and> (\<forall>(key, data) \<in> set packed.
                  \<exists>k \<in> set dels. key = make_feature_key P (feature_key_to_tile P k))"
proof -
  let ?entries = "case resume_key of
                       Some k \<Rightarrow> dropWhile (\<lambda>(k', v). k' < k) db
                     | None \<Rightarrow> db"
  let ?s0 = "\<lparr>c_tile = invalid_tile, c_features = [], c_packed = [], c_size = 0\<rparr> :: 'a collect_state"
  obtain ev1 r1 where c1: "collect P ?entries ?s0 = (ev1, r1)"
    by (cases "collect P ?entries ?s0")
  from assms c1 obtain s where r1: "r1 = Inr (s, resume')"
    by (cases r1) (auto simp: pack_batch_def split: sum.splits)
  from assms c1 r1 obtain s' where fl: "flush P s False = Inr s'"
    by (cases "flush P s False") (auto simp: pack_batch_def)
  from assms c1 r1 fl have
    ev: "ev = Txn_begin # ev1 @ [Txn_commit] @ [Env_sync]
                     @ Txn_begin # map (\<lambda>(key, data). Txn_put key data) (c_packed s')
                     @ [Txn_commit]" and
    pk: "packed = c_packed s'"
    by (auto simp: pack_batch_def)
  from c1 r1 have c: "collect P ?entries ?s0 = (ev1, Inr (s, resume'))" by simp
  from collect_packed [OF c] obtain dels where
    d: "ev1 = map Cursor_del dels" and
    keys: "\<forall>(key, data) \<in> set (c_packed s).
              \<exists>k \<in> set dels. key = make_feature_key P (feature_key_to_tile P k)" and
    last: "c_features s \<noteq> [] \<longrightarrow> (\<exists>k \<in> set dels. c_tile s = feature_key_to_tile P k)"
    by fastforce
  have "\<forall>(key, data) \<in> set (c_packed s').
              \<exists>k \<in> set dels. key = make_feature_key P (feature_key_to_tile P k)"
    using flush_packed [OF fl] keys last by fastforce
  with ev d pk show ?thesis by auto
qed


lemma pack_batch_example:
  "pack_batch example_params example_table None =
     ([Txn_begin, Cursor_del 10, Cursor_del 11, Cursor_del 20, Txn_commit, Env_sync,
       Txn_begin, Txn_put 10 ''abcd'', Txn_put 20 ''ef'', Txn_commit],
      Batch_done [(10, ''abcd''), (20, ''ef'')] None)"
  by (simp add: pack_batch_def example_params_def example_table_def flush_def Let_def
      kPackBatchThreshold_def invalid_tile_def mk_tile_def)

lemma pack_features_db_example:
  "pack_features_db 3 example_params example_table =
     ([Txn_begin, Cursor_del 10, Cursor_del 11, Cursor_del 20, Txn_commit, Env_sync,
       Txn_begin, Txn_put 10 ''abcd'', Txn_put 20 ''ef'', Txn_commit], Run_finished)"
  by (simp add: pack_features_db_def numeral_3_eq_3 pack_batch_example)

theorem pack_batch_deletes_then_writes_witness:
  "pack_batch example_params example_table None =
     ([Txn_begin, Cursor_del 10, Cursor_del 11, Cursor_del 20, Txn_commit, Env_sync,
       Txn_begin, Txn_put 10 ''abcd'', Txn_put 20 ''ef'', Txn_commit],
      Batch_done [(10, ''abcd''), (20, ''ef'')] None)
   \<and> (\<exists>dels.
         [Txn_begin, Cursor_del 10, Cursor_del 11, Cursor_del 20, Txn_commit, Env_sync,
          Txn_begin, Txn_put 10 ''abcd'', Txn_put 20 ''ef'', Txn_commit]
         = Txn_begin # map Cursor_del dels @ [Txn_commit, Env_sync, Txn_begin]
             @ map (\<lambda>(key, data). Txn_put key data) [(10, ''abcd''), (20 :: nat, ''ef'')]
             @ [Txn_commit])"
proof -
  note h = pack_batch_example
  from pack_batch_deletes_then_writes [OF h] h show ?thesis by blast
qed

text \<open>
  C3, as stated, has the raw entries of a tile deleted in the transaction that writes its
  pack. In the run on the example table the entry 10 is deleted at position 1 of the trace,
  in the first transaction, and the pack of its tile is written at position 7, in the
  second; the table committed in between (after the first five events) holds neither.
\<close>

theorem pack_features_db_delete_and_write_apart:
  "pack_features_db 3 example_params example_table =
     ([Txn_begin, Cursor_del 10, Cursor_del 11, Cursor_del 20, Txn_commit, Env_sync,
       Txn_begin, Txn_put 10 ''abcd'', Txn_put 20 ''ef'', Txn_commit], Run_finished)
   \<and> feature_key_to_tile example_params 10 = feature_key_to_tile example_params 11
   \<and> make_feature_key example_params (feature_key_to_tile example_params 11) = 10
   \<and> txn_of (fst (pack_features_db 3 example_params example_table)) 1 = 1
   \<and> txn_of (fst (pack_features_db 3 example_params example_table)) 7 = 2
   \<and> replay (take 5 (fst (pack_features_db 3 example_params example_table)))
         example_table example_table = []
   \<and> replay (fst (pack_features_db 3 example_params example_table))
         example_table example_table = [(10, ''abcd''), (20, ''ef'')]"
  unfolding pack_features_db_example fst_conv
  by (simp add: txn_of_def example_params_def example_table_def mk_tile_def)

section \<open>Properties of spatial keys and range scans\<close>


lemma digits_value_bound:
  "\<forall>d \<in> set ds. d < b \<Longrightarrow> digits_value b ds < b ^ length ds"
proof (induction ds)
  case Nil
  then show ?case by simp
next
  case (Cons d ds)
  then have "d + 1 \<le> b" and v: "digits_value b ds < b ^ length ds" by auto
  then have "(d + 1) * b ^ length ds \<le> b * b ^ length ds"
    by (intro mult_right_mono) auto
  with v show ?case by (simp add: algebra_simps)
qed

lemma digits_value_snoc:
  "digits_value b (ds @ [d]) = b * digits_value b ds + d"
  by (induction ds) (auto simp: algebra_simps)

lemma digits_less_iff:
  assumes "length ds = length es"
    and "\<forall>d \<in> set ds. d < b" and "\<forall>e \<in> set es. e < b"
  shows "ds < es \<longleftrightarrow> digits_value b ds < digits_value b es"
  using assms
proof (induction ds es rule: list_induct2)
  case Nil
  then show ?case by simp
next
  case (Cons d ds e es)
  let ?n = "length ds"
  have vd: "digits_value b ds < b ^ ?n" using Cons.prems by (intro digits_value_bound) auto
  have ve: "digits_value b es < b ^ ?n"
    using Cons.prems Cons.hyps by (metis digits_value_bound list.set_intros(2))
  have ih: "ds < es \<longleftrightarrow> digits_value b ds < digits_value b es"
    using Cons.prems by (intro Cons.IH) auto
  show ?case
  proof (cases d e rule: linorder_cases)
    case less
    then have "(d + 1) * b ^ ?n \<le> e * b ^ ?n"
      by (intro mult_right_mono) auto
    with vd have "d * b ^ ?n + digits_value b ds < e * b ^ ?n + digits_value b es"
      by (simp add: algebra_simps)
    with less Cons.hyps show ?thesis by simp
  next
    case equal
    with ih Cons.hyps show ?thesis by simp
  next
    case greater
    then have "(e + 1) * b ^ ?n \<le> d * b ^ ?n"
      by (intro mult_right_mono) auto
    with ve have "e * b ^ ?n + digits_value b es < d * b ^ ?n + digits_value b ds"
      by (simp add: algebra_simps)
    with greater Cons.hyps show ?thesis by simp
  qed
qed

lemma length_quad_path: "length (quad_path z x y) = z"
  by (induction z x y rule: quad_path.induct) auto

lemma quad_path_digits: "\<forall>d \<in> set (quad_path z x y). d < 4"
proof (induction z x y rule: quad_path.induct)
  case (1 x y)
  then show ?case by simp
next
  case (2 z x y)
  have "2 * (y mod 2) + x mod 2 < 4"
    using mod_less_divisor [of 2 y] mod_less_divisor [of 2 x] by linarith
  with 2 show ?case by auto
qed

lemma interleave_digits: "interleave z x y = digits_value 4 (quad_path z x y)"
  by (induction z x y rule: interleave.induct) (auto simp: digits_value_snoc)

lemma interleave_bound: "interleave z x y < 4 ^ z"
  using digits_value_bound [OF quad_path_digits, of z x y]
  by (simp add: interleave_digits length_quad_path)



text \<open>Lists compare as their images under a map that keeps the order of their elements.\<close>

lemma map_less_iff:
  fixes f :: "'a::linorder \<Rightarrow> 'b::linorder"
  assumes "\<And>a b. a \<in> set xs \<union> set ys \<Longrightarrow> b \<in> set xs \<union> set ys \<Longrightarrow> f a < f b \<longleftrightarrow> a < b"
  shows "map f xs < map f ys \<longleftrightarrow> xs < ys"
  using assms
proof (induction xs arbitrary: ys)
  case Nil
  then show ?case by (cases ys) auto
next
  case (Cons x xs)
  show ?case
  proof (cases ys)
    case Nil
    then show ?thesis by simp
  next
    case (Cons y ys')
    have xy: "f x < f y \<longleftrightarrow> x < y" using Cons.prems Cons by auto
    have yx: "f y < f x \<longleftrightarrow> y < x" using Cons.prems Cons by auto
    have eq: "f x = f y \<longleftrightarrow> x = y"
      using xy yx by (metis less_irrefl linorder_neqE)
    have "map f xs < map f ys' \<longleftrightarrow> xs < ys'"
      using Cons.prems Cons by (intro Cons.IH) auto
    with xy eq Cons show ?thesis by simp
  qed
qed






lemma to_string_decimal: "to_string n = map digit_char (decimal n)"
proof (induction n rule: decimal.induct)
  case (1 n)
  show ?case
  proof (cases "n < 10")
    case True
    then show ?thesis by (simp add: to_string.simps [of n] decimal.simps [of n])
  next
    case False
    with 1 show ?thesis by (simp add: to_string.simps [of n] decimal.simps [of n])
  qed
qed

lemma decimal_digits: "\<forall>d \<in> set (decimal n). d < 10"
proof (induction n rule: decimal.induct)
  case (1 n)
  show ?case
  proof (cases "n < 10")
    case True
    then show ?thesis by (simp add: decimal.simps [of n])
  next
    case False
    with 1 show ?thesis by (auto simp: decimal.simps [of n])
  qed
qed

lemma decimal_value: "digits_value 10 (decimal n) = n"
proof (induction n rule: decimal.induct)
  case (1 n)
  show ?case
  proof (cases "n < 10")
    case True
    then show ?thesis by (simp add: decimal.simps [of n])
  next
    case False
    with 1 show ?thesis by (simp add: decimal.simps [of n] digits_value_snoc)
  qed
qed

lemma decimal_length:
  "10 ^ d \<le> n \<Longrightarrow> n < 10 ^ Suc d \<Longrightarrow> length (decimal n) = Suc d"
proof (induction d arbitrary: n)
  case 0
  then show ?case by (simp add: decimal.simps [of n])
next
  case (Suc d)
  have a: "(10::nat) \<le> 10 * 10 ^ d" by simp
  from Suc.prems(1) have b: "10 * 10 ^ d \<le> n" by simp
  from a b have "10 \<le> n" by (rule le_trans)
  then have "\<not> n < 10" by simp
  moreover have "10 ^ d \<le> n div 10" using Suc.prems by (simp add: less_eq_div_iff_mult_less_eq)
  moreover have "n div 10 < 10 ^ Suc d" using Suc.prems by (simp add: div_less_iff_less_mult)
  ultimately show ?case
    using Suc.IH [of "n div 10"] by (simp add: decimal.simps [of n])
qed

lemma digit_char_less_iff:
  assumes "a < 10" and "b < 10"
  shows "digit_char a < digit_char b \<longleftrightarrow> a < b"
proof -
  have "of_char (digit_char c) = 48 + c" if "c < 10" for c
    using that by (simp add: digit_char_def)
  with assms show ?thesis by (simp add: less_char_def)
qed

text \<open>Numbers with the same count of decimal digits compare as their strings do.\<close>

lemma to_string_less_iff:
  assumes "10 ^ d \<le> m" "m < 10 ^ Suc d" "10 ^ d \<le> n" "n < 10 ^ Suc d"
  shows "to_string m < to_string n \<longleftrightarrow> m < n"
proof -
  have "to_string m < to_string n \<longleftrightarrow> decimal m < decimal n"
    unfolding to_string_decimal
    using decimal_digits [of m] decimal_digits [of n]
    by (intro map_less_iff digit_char_less_iff) auto
  also have "\<dots> \<longleftrightarrow> digits_value 10 (decimal m) < digits_value 10 (decimal n)"
    using assms by (intro digits_less_iff decimal_digits) (simp add: decimal_length)
  finally show ?thesis by (simp add: decimal_value)
qed


lemma zoom_key_width:
  assumes "z \<le> 20" and "0 < z"
  shows "10 ^ (if z \<le> 3 then 17 else 18) \<le> spatial_key z x y
         \<and> spatial_key z x y < 10 ^ Suc (if z \<le> 3 then 17 else 18)"
proof (cases "z \<le> 3")
  case True
  have i: "interleave z x y < 4 ^ z" by (rule interleave_bound)
  have "(4::nat) ^ z \<le> 4 ^ 3" using True by (intro power_increasing) auto
  with i have i': "interleave z x y < 64" by simp
  have lo: "(1::nat) * 2 ^ 58 \<le> z * 2 ^ 58" using assms(2) by (intro mult_right_mono) auto
  have hi: "z * (2::nat) ^ 58 \<le> 3 * 2 ^ 58" using True by (intro mult_right_mono) auto
  from lo hi i' True show ?thesis by (simp add: spatial_key_def)
next
  case False
  have i: "interleave z x y < 4 ^ z" by (rule interleave_bound)
  have "(4::nat) ^ z \<le> 4 ^ 20" using assms(1) by (intro power_increasing) auto
  with i have i': "interleave z x y < 4 ^ 20" by simp
  have lo: "(4::nat) * 2 ^ 58 \<le> z * 2 ^ 58" using False by (intro mult_right_mono) auto
  have hi: "z * (2::nat) ^ 58 \<le> 20 * 2 ^ 58" using assms(1) by (intro mult_right_mono) auto
  from lo hi i' False show ?thesis by (simp add: spatial_key_def)
qed

lemma stored_key_less_iff:
  assumes "z \<le> 20" and "zoom_key z k1" and "zoom_key z k2"
  shows "to_string k1 < to_string k2 \<longleftrightarrow> k1 < k2"
proof (cases "z = 0")
  case True
  with assms have "k1 = 0" "k2 = 0" by (auto simp: zoom_key_def spatial_key_def)
  then show ?thesis by simp
next
  case False
  then have z: "0 < z" by simp
  from assms obtain x1 y1 x2 y2 where
    k: "k1 = spatial_key z x1 y1" "k2 = spatial_key z x2 y2"
    by (auto simp: zoom_key_def)
  let ?d = "if z \<le> 3 then 17 else 18 :: nat"
  from zoom_key_width [OF assms(1) z, of x1 y1] zoom_key_width [OF assms(1) z, of x2 y2]
  show ?thesis
    unfolding k by (intro to_string_less_iff [of ?d]) auto
qed


lemma dropWhile_stored:
  assumes "\<forall>k \<in> set (map fst kvs). to_string k < to_string a \<longleftrightarrow> k < a"
  shows "dropWhile (\<lambda>(k, v). k < to_string a) (stored kvs) =
         stored (dropWhile (\<lambda>(k, v). k < a) kvs)"
  using assms
  by (induction kvs) (auto simp: stored_def)



text \<open>
  The end of a scan. The loop stops without a failure at the first entry from \<open>a\<close> on
  whose key is not below \<open>b\<close>; when no stored key is at or above both \<open>a\<close> and \<open>b\<close>,
  the cursor runs off the end of the table and the loop condition reads an entry that is
  not there.
\<close>

lemma scan_until_stored_end:
  assumes "\<forall>k \<in> set (map fst kvs). to_string k < to_string b \<longleftrightarrow> k < b"
  shows "snd (scan_until (stored kvs) (to_string b)) =
         (if \<exists>k \<in> set (map fst kvs). b \<le> k then None else Some End_of_range)"
  using assms
proof (induction kvs)
  case Nil
  then show ?case by (simp add: stored_def)
next
  case (Cons e kvs)
  obtain k v where e: "e = (k, v)" by (cases e)
  from Cons.prems e have kb: "to_string k < to_string b \<longleftrightarrow> k < b" by simp
  from Cons.prems have
    "\<forall>k \<in> set (map fst kvs). to_string k < to_string b \<longleftrightarrow> k < b" by simp
  note ih = Cons.IH [OF this]
  have st: "stored (e # kvs) = (to_string k, v) # stored kvs"
    by (simp add: stored_def e)
  show ?case
  proof (cases "k < b")
    case True
    then have "(\<exists>k' \<in> set (map fst (e # kvs)). b \<le> k') \<longleftrightarrow>
               (\<exists>k' \<in> set (map fst kvs). b \<le> k')"
      by (simp add: e)
    with True kb ih show ?thesis
      unfolding st by (simp add: split_beta)
  next
    case False
    then have "\<exists>k' \<in> set (map fst (e # kvs)). b \<le> k'"
      by (simp add: e)
    with False kb show ?thesis
      unfolding st by simp
  qed
qed

lemma set_dropWhile_sorted:
  fixes kvs :: "(nat \<times> 'v) list"
  assumes "sorted_wrt (<) (map fst kvs)"
  shows "set (dropWhile (\<lambda>(k, v). k < a) kvs) = {e \<in> set kvs. a \<le> fst e}"
  using assms
proof (induction kvs)
  case Nil
  then show ?case by simp
next
  case (Cons e kvs)
  obtain k v where e: "e = (k, v)" by (cases e)
  from Cons.prems e have gt: "\<forall>e' \<in> set kvs. k < fst e'"
    and s: "sorted_wrt (<) (map fst kvs)" by auto
  show ?case
  proof (cases "k < a")
    case True
    with Cons.IH [OF s] e show ?thesis by auto
  next
    case False
    with gt e show ?thesis by fastforce
  qed
qed

lemma range_scan_end:
  assumes "z \<le> 20"
    and "sorted_wrt (<) (map fst kvs)"
    and "\<forall>k \<in> set (map fst kvs). zoom_key z k"
    and "zoom_key z a" and "zoom_key z b"
  shows "snd (range_scan (stored kvs) (to_string a) (to_string b)) =
         (if \<exists>k \<in> set (map fst kvs). a \<le> k \<and> b \<le> k then None else Some End_of_range)"
proof -
  have ka: "\<forall>k \<in> set (map fst kvs). to_string k < to_string a \<longleftrightarrow> k < a"
  proof
    fix k assume "k \<in> set (map fst kvs)"
    with assms(3) have "zoom_key z k" by blast
    then show "to_string k < to_string a \<longleftrightarrow> k < a"
      using assms(1,4) by (intro stored_key_less_iff [of z])
  qed
  have kb: "\<forall>k \<in> set (map fst kvs). to_string k < to_string b \<longleftrightarrow> k < b"
  proof
    fix k assume "k \<in> set (map fst kvs)"
    with assms(3) have "zoom_key z k" by blast
    then show "to_string k < to_string b \<longleftrightarrow> k < b"
      using assms(1,5) by (intro stored_key_less_iff [of z])
  qed
  have kb': "\<forall>k \<in> set (map fst (dropWhile (\<lambda>(k, v). k < a) kvs)).
               to_string k < to_string b \<longleftrightarrow> k < b"
    using kb set_dropWhileD by fastforce
  have "(\<exists>k \<in> set (map fst (dropWhile (\<lambda>(k, v). k < a) kvs)). b \<le> k) \<longleftrightarrow>
        (\<exists>k \<in> set (map fst kvs). a \<le> k \<and> b \<le> k)"
    unfolding set_map set_dropWhile_sorted [OF assms(2)] by force
  then show ?thesis
    unfolding range_scan_def dropWhile_stored [OF ka] scan_until_stored_end [OF kb']
    by simp
qed



text \<open>
  A table of three entries at zoom level 1, scanned from the key of (1, 0) to the key of
  (1, 1): the scan passes the entry of (1, 0) and stops at the entry of (1, 1).
\<close>

lemma digit_chars:
  "digit_char 0 = CHR ''0''" "digit_char (Suc 0) = CHR ''1''" "digit_char 2 = CHR ''2''"
  "digit_char 3 = CHR ''3''" "digit_char 4 = CHR ''4''" "digit_char 5 = CHR ''5''"
  "digit_char 6 = CHR ''6''" "digit_char 7 = CHR ''7''" "digit_char 8 = CHR ''8''"
  "digit_char 9 = CHR ''9''"
  by (code_simp+)


lemma example_strings:
  "to_string 288230376151711744 = ''288230376151711744''"
  "to_string 288230376151711745 = ''288230376151711745''"
  "to_string 288230376151711747 = ''288230376151711747''"
  by (simp_all add: to_string.simps digit_chars)


text \<open>
  A scan over a table that holds no key at or above both \<open>a\<close> and \<open>b\<close> ends in the
  failure.
\<close>

lemma range_scan_past_end:
  assumes "z \<le> 20"
    and "sorted_wrt (<) (map fst kvs)"
    and "\<forall>k \<in> set (map fst kvs). zoom_key z k"
    and "zoom_key z a" and "zoom_key z b"
    and "\<not> (\<exists>k \<in> set (map fst kvs). a \<le> k \<and> b \<le> k)"
  shows "snd (range_scan (stored kvs) (to_string a) (to_string b)) = Some End_of_range"
  using range_scan_end [OF assms(1-5)] assms(6) by simp


section \<open>Properties of the feature packer\<close>


lemma byte_of_nat_small:
  assumes "n < 256"
  shows "unat (of_nat n :: 8 word) = n"
  using assms by (simp add: unat_of_nat)

lemma read_write_varint:
  "read_varint (write_varint n @ rest) = Some (n, rest)"
proof (induction n rule: write_varint.induct)
  case (1 n)
  show ?case
  proof (cases "n > 127")
    case True
    have lt: "n mod 128 + 128 < 256" using mod_less_divisor [of 128 n] by linarith
    have u: "unat (of_nat (n mod 128 + 128) :: 8 word) = n mod 128 + 128"
      using lt by (rule byte_of_nat_small)
    then have ge: "\<not> (of_nat (n mod 128 + 128) :: 8 word) < 128"
      by (simp add: word_less_nat_alt)
    from 1 [OF True] have ih: "read_varint (write_varint (n div 128) @ rest) = Some (n div 128, rest)" .
    have "n mod 128 + 128 * (n div 128) = n" by simp
    with ge u ih True show ?thesis
      by (simp add: write_varint.simps [of n])
  next
    case False
    then have "n < 256" by simp
    then have u: "unat (of_nat n :: 8 word) = n" by (rule byte_of_nat_small)
    with False have "(of_nat n :: 8 word) < 128" by (simp add: word_less_nat_alt)
    with u False show ?thesis by (simp add: write_varint.simps [of n])
  qed
qed

lemma write_varint_nonempty: "write_varint n \<noteq> []"
  by (subst write_varint.simps) simp

lemma read_span_bytes_encode:
  assumes "\<forall>p \<in> set span. p \<noteq> []"
  shows "read_span_bytes (encode_span span @ rest) = Some span"
  using assms
proof (induction span)
  case Nil
  have "read_varint (write_varint 0 @ rest) = Some (0, rest)" by (rule read_write_varint)
  then show ?case by (simp add: encode_span_def read_span_bytes.simps [of "write_varint 0 @ rest"])
next
  case (Cons p span)
  let ?tail = "encode_span span @ rest"
  have e: "encode_span (p # span) @ rest = write_varint (length p) @ (p @ ?tail)"
    by (simp add: encode_span_def)
  have rv: "read_varint (write_varint (length p) @ (p @ ?tail)) = Some (length p, p @ ?tail)"
    by (rule read_write_varint)
  from Cons have ih: "read_span_bytes ?tail = Some span" and ne: "p \<noteq> []" by auto
  show ?case
    unfolding e
    by (subst read_span_bytes.simps) (simp add: rv ih ne)
qed

lemma encode_span_nonempty: "0 < length (encode_span span)"
  using write_varint_nonempty [of 0] by (simp add: encode_span_def)

text \<open>Spans laid out in a buffer are read back at their offsets.\<close>

lemma read_spans_at_offsets:
  assumes "\<forall>span \<in> set spans. \<forall>p \<in> set span. p \<noteq> []"
    and "buf = pre @ concat (map encode_span spans) @ post"
  shows "map (\<lambda>n. read_span_bytes (drop n buf)) (offsets_from (length pre) spans) = map Some spans"
  using assms
proof (induction spans arbitrary: pre)
  case Nil
  then show ?case by simp
next
  case (Cons span spans)
  let ?pre' = "pre @ encode_span span"
  have b: "buf = ?pre' @ concat (map encode_span spans) @ post"
    using Cons.prems(2) by simp
  have ih: "map (\<lambda>n. read_span_bytes (drop n buf)) (offsets_from (length ?pre') spans) = map Some spans"
    using Cons.prems(1) by (intro Cons.IH [OF _ b]) auto
  have "drop (length pre) buf = encode_span span @ (concat (map encode_span spans) @ post)"
    using Cons.prems(2) by simp
  then have "read_span_bytes (drop (length pre) buf) = Some span"
    using Cons.prems(1) by (simp add: read_span_bytes_encode)
  with ih show ?case by simp
qed

lemma offsets_from_bounds:
  "n' \<in> set (offsets_from n spans) \<Longrightarrow>
   n \<le> n' \<and> n' < n + length (concat (map encode_span spans))"
proof (induction spans arbitrary: n)
  case Nil
  then show ?case by simp
next
  case (Cons span spans)
  from Cons.prems consider "n' = n" | "n' \<in> set (offsets_from (n + length (encode_span span)) spans)"
    by auto
  then show ?case
  proof cases
    case 1
    then show ?thesis using encode_span_nonempty [of span] by simp
  next
    case 2
    from Cons.IH [OF 2] show ?thesis by simp
  qed
qed

lemma offsets_from_distinct: "distinct (offsets_from n spans)"
proof (induction spans arbitrary: n)
  case Nil
  then show ?case by simp
next
  case (Cons span spans)
  have "n \<notin> set (offsets_from (n + length (encode_span span)) spans)"
    using offsets_from_bounds [of n "n + length (encode_span span)" spans]
      encode_span_nonempty [of span] by auto
  with Cons.IH show ?case by simp
qed

lemma offsets_from_append:
  "offsets_from n (xs @ ys) =
   offsets_from n xs @ offsets_from (n + length (concat (map encode_span xs))) ys"
  by (induction xs arbitrary: n) (auto simp: add.assoc)

lemma length_offsets_from: "length (offsets_from n spans) = length spans"
  by (induction spans arbitrary: n) auto


lemma append_span_loop_result:
  assumes "append_span_loop buf span = Inr buf'"
  shows "buf' = buf @ concat (map (\<lambda>p. write_varint (length p) @ p) span)
         \<and> (\<forall>p \<in> set span. 32 \<le> length p)"
  using assms
  by (induction buf span rule: append_span_loop.induct) (auto split: if_splits)

lemma append_span_result:
  assumes "append_span buf span = Inr (offset, buf')"
  shows "offset = of_nat (length buf) \<and> buf' = buf @ encode_span span
         \<and> (\<forall>p \<in> set span. p \<noteq> [])"
proof -
  from assms obtain b where l: "append_span_loop buf span = Inr b"
    and r: "offset = of_nat (length buf)" "buf' = b @ write_varint 0"
    by (auto simp: append_span_def Let_def split: sum.splits)
  from append_span_loop_result [OF l] r show ?thesis
    by (auto simp: encode_span_def)
qed

lemma append_ranges_result:
  assumes "append_ranges buf runs = Inr (inputs, buf')"
  shows "buf' = buf @ concat (map encode_span (map (map pf_feature) runs))
         \<and> map qt_offset inputs = map of_nat (offsets_from (length buf) (map (map pf_feature) runs))
         \<and> map qt_tile inputs = map (\<lambda>run. pf_best_tile (hd run)) runs
         \<and> (\<forall>span \<in> set (map (map pf_feature) runs). \<forall>p \<in> set span. p \<noteq> [])"
  using assms
proof (induction runs arbitrary: buf inputs buf')
  case Nil
  then show ?case by simp
next
  case (Cons run runs)
  from Cons.prems obtain offset buf1 inputs1 where
    a: "append_span buf (map pf_feature run) = Inr (offset, buf1)" and
    r: "append_ranges buf1 runs = Inr (inputs1, buf')" and
    i: "inputs = \<lparr>qt_tile = pf_best_tile (hd run), qt_offset = offset, qt_count = 1\<rparr> # inputs1"
    by (auto split: sum.splits)
  from append_span_result [OF a] have
    o: "offset = of_nat (length buf)" and b1: "buf1 = buf @ encode_span (map pf_feature run)"
    and ne: "\<forall>p \<in> set (map pf_feature run). p \<noteq> []" by auto
  from Cons.IH [OF r] have
    b': "buf' = buf1 @ concat (map encode_span (map (map pf_feature) runs))" and
    offs: "map qt_offset inputs1 = map of_nat (offsets_from (length buf1) (map (map pf_feature) runs))" and
    tiles: "map qt_tile inputs1 = map (\<lambda>run. pf_best_tile (hd run)) runs" and
    nes: "\<forall>span \<in> set (map (map pf_feature) runs). \<forall>p \<in> set span. p \<noteq> []"
    by auto
  show ?case
    using o b1 ne b' offs tiles nes by (simp add: i)
qed

lemma pack_buckets_result:
  assumes "pack_buckets env root buf buckets = Inr (quad_trees, inputs, buf')"
  shows "buf' = buf @ concat (map encode_span (bucket_spans buckets))
         \<and> concat (map (map qt_offset) inputs) =
             map of_nat (offsets_from (length buf) (bucket_spans buckets))
         \<and> concat (map (map qt_tile) inputs) =
             map (\<lambda>run. pf_best_tile (hd run)) (concat (map equal_ranges buckets))
         \<and> (\<forall>span \<in> set (bucket_spans buckets). \<forall>p \<in> set span. p \<noteq> [])
         \<and> length inputs = length buckets \<and> length quad_trees = length buckets"
  using assms
proof (induction buckets arbitrary: buf quad_trees inputs buf')
  case Nil
  then show ?case by (simp add: bucket_spans_def)
next
  case (Cons features buckets)
  show ?case
  proof (cases "features = []")
    case True
    with Cons.prems obtain qts1 inputs1 where
      r: "pack_buckets env root buf buckets = Inr (qts1, inputs1, buf')" and
      i: "inputs = [] # inputs1" "quad_trees = [] # qts1"
      by (auto split: sum.splits)
    have e: "equal_ranges [] = []" by (simp add: equal_ranges_def)
    from Cons.IH [OF r] show ?thesis
      by (simp add: i True bucket_spans_def e)
  next
    case False
    with Cons.prems obtain qti buf1 qts1 inputs1 where
      a: "append_ranges buf (equal_ranges features) = Inr (qti, buf1)" and
      r: "pack_buckets env root buf1 buckets = Inr (qts1, inputs1, buf')" and
      i: "inputs = qti # inputs1" "quad_trees = make_quad_tree env root qti # qts1"
      by (auto split: sum.splits)
    let ?s1 = "map (map pf_feature) (equal_ranges features)"
    from append_ranges_result [OF a] have
      b1: "buf1 = buf @ concat (map encode_span ?s1)" and
      o1: "map qt_offset qti = map of_nat (offsets_from (length buf) ?s1)" and
      t1: "map qt_tile qti = map (\<lambda>run. pf_best_tile (hd run)) (equal_ranges features)" and
      n1: "\<forall>span \<in> set ?s1. \<forall>p \<in> set span. p \<noteq> []"
      by auto
    from Cons.IH [OF r] have
      b': "buf' = buf1 @ concat (map encode_span (bucket_spans buckets))" and
      o2: "concat (map (map qt_offset) inputs1) =
             map of_nat (offsets_from (length buf1) (bucket_spans buckets))" and
      t2: "concat (map (map qt_tile) inputs1) =
             map (\<lambda>run. pf_best_tile (hd run)) (concat (map equal_ranges buckets))" and
      n2: "\<forall>span \<in> set (bucket_spans buckets). \<forall>p \<in> set span. p \<noteq> []" and
      l2: "length inputs1 = length buckets" "length qts1 = length buckets"
      by auto
    have bs: "bucket_spans (features # buckets) = ?s1 @ bucket_spans buckets"
      by (simp add: bucket_spans_def)
    have lb1: "length buf1 = length buf + length (concat (map encode_span ?s1))"
      by (simp add: b1)
    have ne: "\<forall>span \<in> set (?s1 @ bucket_spans buckets). \<forall>p \<in> set span. p \<noteq> []"
      using n1 n2 by (metis Un_iff set_append)
    show ?thesis
      unfolding bs i
      using b1 o1 t1 ne b' o2 t2 l2
      by (simp add: offsets_from_append lb1 del: length_concat set_append)
  qed
qed


lemma concat_group_runs: "concat (group_runs key xs) = xs"
  by (induction key xs rule: group_runs.induct) auto

lemma group_runs_nonempty: "run \<in> set (group_runs key xs) \<Longrightarrow> run \<noteq> []"
  by (induction key xs rule: group_runs.induct) auto

lemma mset_equal_ranges: "mset (concat (equal_ranges features)) = mset features"
  by (simp add: equal_ranges_def concat_group_runs)

lemma equal_ranges_hd:
  assumes "run \<in> set (equal_ranges features)"
  shows "hd run \<in> set features"
proof -
  from assms have ne: "run \<noteq> []"
    by (auto simp: equal_ranges_def dest: group_runs_nonempty)
  from assms have "set run \<subseteq> set (concat (equal_ranges features))" by auto
  also have "\<dots> = set features"
    using mset_equal_ranges [of features] by (metis set_mset_mset)
  finally show ?thesis using ne by auto
qed

lemma mset_bucket_spans:
  "mset (concat (bucket_spans buckets)) = mset (map pf_feature (concat buckets))"
proof (induction buckets)
  case Nil
  then show ?case by (simp add: bucket_spans_def)
next
  case (Cons features buckets)
  have "mset (concat (map (map pf_feature) (equal_ranges features))) =
        mset (map pf_feature (concat (equal_ranges features)))"
    by (simp add: map_concat)
  also have "\<dots> = mset (map pf_feature features)"
    using mset_equal_ranges [of features] by (metis mset_map)
  finally show ?case using Cons by (simp add: bucket_spans_def)
qed

lemma descends_trans:
  assumes "descends b c" and "descends a b"
  shows "descends a c"
  using assms by (induction rule: descends.induct) (auto intro: descends_child)

lemma find_best_tile_loop_descends:
  "find_best_tile_loop mk_spec fb best = Inr bt \<Longrightarrow> descends best bt"
proof (induction mk_spec fb best rule: find_best_tile_loop.induct)
  case (1 mk_spec fb best)
  show ?case
  proof (cases "tile_z best < kMaxZoomLevel")
    case False
    with 1(2) have "bt = best" by (simp add: find_best_tile_loop.simps [of _ _ best])
    then show ?thesis by (simp add: descends_self)
  next
    case True
    show ?thesis
    proof (cases "scan_children mk_spec fb (direct_children best) None")
      case None
      with True 1(2) have "bt = best" by (simp add: find_best_tile_loop.simps [of _ _ best])
      then show ?thesis by (simp add: descends_self)
    next
      case (Some r)
      show ?thesis
      proof (cases r)
        case None
        with Some True 1(2) show ?thesis
          by (simp add: find_best_tile_loop.simps [of _ _ best])
      next
        case (Some c)
        with \<open>scan_children mk_spec fb (direct_children best) None = Some r\<close>
        have sc: "scan_children mk_spec fb (direct_children best) None = Some (Some c)" by simp
        then have c: "c \<in> set (direct_children best)"
          by (auto dest: scan_children_member)
        from sc True 1(2) have "find_best_tile_loop mk_spec fb c = Inr bt"
          by (simp add: find_best_tile_loop.simps [of _ _ best])
        with 1(1) [OF True sc] have "descends c bt" by simp
        moreover have "descends best c"
          using c by (intro descends_child [OF descends_self])
        ultimately show ?thesis by (rule descends_trans)
      qed
    qed
  qed
qed


lemma mset_concat_update:
  assumes "z < length xss"
  shows "mset (concat (xss[z := xss ! z @ [x]])) = mset (concat xss) + {#x#}"
  using assms
proof (induction xss arbitrary: z)
  case Nil
  then show ?case by simp
next
  case (Cons xs xss)
  then show ?case by (cases z) auto
qed

lemma bucket_feature_result:
  assumes "bucket_feature env root buckets str = Inr buckets'"
  shows "\<exists>f pf. deserialize_feature env str = Some f
           \<and> pf_feature pf = serialize_feature env f
           \<and> descends root (pf_best_tile pf)
           \<and> mset (concat buckets') = mset (concat buckets) + {#pf#}
           \<and> length buckets' = length buckets"
proof -
  from assms obtain f where d: "deserialize_feature env str = Some f"
    by (auto simp: bucket_feature_def split: option.splits)
  let ?z = "unat (max (tile_z root) (fst (zoom_levels f)) - tile_z root)"
  from assms d obtain bt where
    b: "find_best_tile (pe_mk_spec env) (pe_bounding_box env) root f = Inr bt"
    by (auto simp: bucket_feature_def Let_def split: sum.splits)
  from assms d b have z: "?z < length buckets"
    by (auto simp: bucket_feature_def Let_def split: if_splits)
  from assms d b z obtain qk where
    q: "make_quad_key root bt = Inr qk" and
    r: "buckets' = buckets[?z := buckets ! ?z @
          [\<lparr>pf_quad_key = qk, pf_best_tile = bt, pf_feature = serialize_feature env f\<rparr>]]"
    by (auto simp: bucket_feature_def Let_def split: sum.splits)
  from b have "descends root bt"
    by (auto simp: find_best_tile_def Let_def dest: find_best_tile_loop_descends)
  with d r z show ?thesis
    by (auto simp: mset_concat_update)
qed

lemma bucket_features_result:
  assumes "bucket_features env root buckets strings = Inr buckets'"
  shows "mset (map pf_feature (concat buckets')) =
           mset (map pf_feature (concat buckets)) + mset (payloads env strings)
         \<and> (\<forall>pf \<in> set (concat buckets').
               pf \<in> set (concat buckets) \<or> descends root (pf_best_tile pf))
         \<and> length buckets' = length buckets"
  using assms
proof (induction strings arbitrary: buckets)
  case Nil
  then show ?case by (simp add: payloads_def map_filter_simps)
next
  case (Cons str strings)
  from Cons.prems obtain b1 where
    1: "bucket_feature env root buckets str = Inr b1" and
    2: "bucket_features env root b1 strings = Inr buckets'"
    by (auto split: sum.splits)
  from bucket_feature_result [OF 1] obtain f pf where
    d: "deserialize_feature env str = Some f" and
    p: "pf_feature pf = serialize_feature env f" and
    ds: "descends root (pf_best_tile pf)" and
    m: "mset (concat b1) = mset (concat buckets) + {#pf#}" and
    l: "length b1 = length buckets"
    by blast
  from m have m': "mset (map pf_feature (concat b1)) =
      mset (map pf_feature (concat buckets)) + {#pf_feature pf#}"
    by (metis image_mset_single image_mset_union mset_map)
  from m have s: "set (concat b1) = insert pf (set (concat buckets))"
    by (metis add_mset_add_single set_mset_add_mset_insert set_mset_mset)
  have pl: "payloads env (str # strings) = serialize_feature env f # payloads env strings"
    by (simp add: payloads_def map_filter_simps d)
  from Cons.IH [OF 2] have
    a: "mset (map pf_feature (concat buckets')) =
           mset (map pf_feature (concat b1)) + mset (payloads env strings)" and
    b: "\<forall>pf \<in> set (concat buckets').
               pf \<in> set (concat b1) \<or> descends root (pf_best_tile pf)" and
    c: "length buckets' = length b1"
    by auto
  show ?case
  proof (intro conjI)
    show "mset (map pf_feature (concat buckets')) =
           mset (map pf_feature (concat buckets)) + mset (payloads env (str # strings))"
      using a m' by (simp add: pl p)
    show "\<forall>pf \<in> set (concat buckets').
               pf \<in> set (concat buckets) \<or> descends root (pf_best_tile pf)"
    proof
      fix q assume "q \<in> set (concat buckets')"
      with b have "q \<in> set (concat b1) \<or> descends root (pf_best_tile q)" by blast
      then show "q \<in> set (concat buckets) \<or> descends root (pf_best_tile q)"
        unfolding s using ds by (cases "q = pf") simp_all
    qed
    show "length buckets' = length buckets" using c l by simp
  qed
qed

lemma append_quad_trees_extends:
  "append_quad_trees buf quad_trees = (offsets, buf') \<Longrightarrow> \<exists>post. buf' = buf @ post"
proof (induction quad_trees arbitrary: buf offsets buf')
  case Nil
  then show ?case by simp
next
  case (Cons quad_tree quad_trees)
  show ?case
  proof (cases "quad_tree = []")
    case True
    with Cons.prems obtain offs where "append_quad_trees buf quad_trees = (offs, buf')"
      by (auto split: prod.splits)
    from Cons.IH [OF this] show ?thesis .
  next
    case False
    with Cons.prems obtain offs where "append_quad_trees (buf @ quad_tree) quad_trees = (offs, buf')"
      by (auto simp: append_string_def split: prod.splits)
    from Cons.IH [OF this] obtain post where "buf' = (buf @ quad_tree) @ post" by blast
    then show ?thesis by simp
  qed
qed

lemma append_packed_extends:
  "\<exists>post. snd (append_packed buf vec) = buf @ post"
proof -
  have "\<exists>post. foldl (\<lambda>b e. b @ write_varint (unat e)) buf vec = buf @ post"
  proof (induction vec arbitrary: buf)
    case Nil
    then show ?case by simp
  next
    case (Cons e vec)
    from Cons [of "buf @ write_varint (unat e)"] show ?case by auto
  qed
  then show ?thesis by (simp add: append_packed_def)
qed


lemma length_le32: "length (le32 v) = 4"
  by (simp add: le32_def)

lemma length_packer_init: "length (packer_init n) = 8"
  by (simp add: packer_init_def length_le32)

lemma write_index_offset_layout:
  assumes "length init = 8"
  shows "\<exists>pre. length pre = 8 \<and> write_index_offset (init @ rest) v = pre @ rest"
proof -
  have "write_index_offset (init @ rest) v = (take 4 init @ le32 v) @ rest"
    using assms by (simp add: write_index_offset_def write_nth_u32_def)
  moreover have "length (take 4 init @ le32 v) = 8"
    using assms by (simp add: length_le32)
  ultimately show ?thesis by blast
qed

lemma unat_of_nat_32:
  assumes "n < 2 ^ 32"
  shows "unat (of_nat n :: 32 word) = n"
  using assms by (simp add: unat_of_nat)

text \<open>
  Payloads of 32 bytes and more pass the packer's check, so that the packer comes to an
  end with a pack.
\<close>

lemma append_span_loop_total:
  assumes "\<forall>p \<in> set span. 32 \<le> length p"
  shows "append_span_loop buf span =
         Inr (buf @ concat (map (\<lambda>p. write_varint (length p) @ p) span))"
  using assms by (induction buf span rule: append_span_loop.induct) auto

lemma append_span_total:
  assumes "\<forall>p \<in> set span. 32 \<le> length p"
  shows "append_span buf span = Inr (of_nat (length buf), buf @ encode_span span)"
  by (simp add: append_span_def append_span_loop_total [OF assms] encode_span_def)

lemma append_ranges_total:
  assumes "\<forall>run \<in> set runs. \<forall>pf \<in> set run. 32 \<le> length (pf_feature pf)"
  shows "\<exists>inputs buf'. append_ranges buf runs = Inr (inputs, buf')"
  using assms
proof (induction runs arbitrary: buf)
  case Nil
  then show ?case by simp
next
  case (Cons run runs)
  let ?buf1 = "buf @ encode_span (map pf_feature run)"
  have a: "append_span buf (map pf_feature run) = Inr (of_nat (length buf), ?buf1)"
    using Cons.prems by (intro append_span_total) auto
  from Cons.prems have "\<forall>run \<in> set runs. \<forall>pf \<in> set run. 32 \<le> length (pf_feature pf)"
    by auto
  from Cons.IH [OF this, of ?buf1] obtain inputs buf' where
    "append_ranges ?buf1 runs = Inr (inputs, buf')" by blast
  with a show ?case by simp
qed

lemma set_equal_ranges: "\<Union> (set ` set (equal_ranges features)) = set features"
proof -
  have "set (concat (equal_ranges features)) = set features"
    by (simp add: equal_ranges_def concat_group_runs)
  then show ?thesis by simp
qed

lemma pack_buckets_total:
  assumes "\<forall>features \<in> set buckets. \<forall>pf \<in> set features. 32 \<le> length (pf_feature pf)"
  shows "\<exists>quad_trees inputs buf'. pack_buckets env root buf buckets = Inr (quad_trees, inputs, buf')"
  using assms
proof (induction buckets arbitrary: buf)
  case Nil
  then show ?case by simp
next
  case (Cons features buckets)
  from Cons.prems have rest: "\<forall>features \<in> set buckets. \<forall>pf \<in> set features. 32 \<le> length (pf_feature pf)"
    by auto
  show ?case
  proof (cases "features = []")
    case True
    from Cons.IH [OF rest, of buf] obtain q i b where
      "pack_buckets env root buf buckets = Inr (q, i, b)" by blast
    with True show ?thesis by simp
  next
    case False
    have "\<forall>run \<in> set (equal_ranges features). \<forall>pf \<in> set run. 32 \<le> length (pf_feature pf)"
      using Cons.prems set_equal_ranges [of features] by auto
    from append_ranges_total [OF this, of buf] obtain qti buf1 where
      a: "append_ranges buf (equal_ranges features) = Inr (qti, buf1)" by blast
    from Cons.IH [OF rest, of buf1] obtain q i b where
      "pack_buckets env root buf1 buckets = Inr (q, i, b)" by blast
    with a False show ?thesis by simp
  qed
qed

lemma pack_features_total:
  assumes "bucket_features env T (replicate (unat (kMaxZoomLevel + 1 - tile_z T)) []) strings
             = Inr fbz"
    and "pack_buckets env T (packer_init (of_nat (length strings))) fbz =
           Inr (quad_trees, inputs, buf)"
  shows "\<exists>out. pack_features env T strings = Inr out"
  using assms by (simp add: pack_features_def split: prod.splits)

text \<open>
  The layout of a finished pack: eight bytes of header, the spans of the buckets one after
  the other, and then the quad-trees and the index.
\<close>

lemma pack_features_layout:
  assumes "pack_features env T strings = Inr out"
  shows "\<exists>fbz pre post.
           bucket_features env T (replicate (unat (kMaxZoomLevel + 1 - tile_z T)) []) strings
             = Inr fbz
           \<and> length pre = 8
           \<and> pack_buf out = pre @ concat (map encode_span (bucket_spans fbz)) @ post
           \<and> span_offsets out = map of_nat (offsets_from 8 (bucket_spans fbz))
           \<and> (\<forall>span \<in> set (bucket_spans fbz). \<forall>p \<in> set span. p \<noteq> [])
           \<and> concat (map (map qt_tile) (pack_inputs out)) =
               map (\<lambda>run. pf_best_tile (hd run)) (concat (map equal_ranges fbz))"
proof -
  let ?init = "packer_init (of_nat (length strings))"
  let ?empty = "replicate (unat (kMaxZoomLevel + 1 - tile_z T)) [] :: packable_feature list list"
  from assms(1) obtain fbz where
    bf: "bucket_features env T ?empty strings = Inr fbz"
    by (auto simp: pack_features_def split: sum.splits)
  from assms(1) bf obtain quad_trees inputs buf where
    pb: "pack_buckets env T ?init fbz = Inr (quad_trees, inputs, buf)"
    by (auto simp: pack_features_def split: sum.splits)
  obtain offsets buf1 where aq: "append_quad_trees buf quad_trees = (offsets, buf1)"
    by (cases "append_quad_trees buf quad_trees")
  obtain index_offset buf2 where ap: "append_packed buf1 offsets = (index_offset, buf2)"
    by (cases "append_packed buf1 offsets")
  from assms(1) bf pb aq ap have
    out: "out = \<lparr>pack_buf = write_index_offset buf2 index_offset, pack_inputs = inputs\<rparr>"
    by (simp add: pack_features_def)
  let ?spans = "bucket_spans fbz"
  let ?S = "concat (map encode_span ?spans)"
  from pack_buckets_result [OF pb] have
    b: "buf = ?init @ ?S" and
    offs: "concat (map (map qt_offset) inputs) = map of_nat (offsets_from (length ?init) ?spans)" and
    tiles: "concat (map (map qt_tile) inputs) =
             map (\<lambda>run. pf_best_tile (hd run)) (concat (map equal_ranges fbz))" and
    ne: "\<forall>span \<in> set ?spans. \<forall>p \<in> set span. p \<noteq> []"
    by auto
  from append_quad_trees_extends [OF aq] obtain post1 where b1: "buf1 = buf @ post1" by blast
  from append_packed_extends [of buf1 offsets] ap obtain post2 where b2: "buf2 = buf1 @ post2"
    by auto
  have "buf2 = ?init @ (?S @ post1 @ post2)" by (simp add: b b1 b2)
  with write_index_offset_layout [OF length_packer_init, of "of_nat (length strings)"
      "?S @ post1 @ post2" index_offset]
  obtain pre where pre: "length pre = 8" and
    fin: "pack_buf out = pre @ ?S @ (post1 @ post2)"
    by (auto simp: out)
  have so: "span_offsets out = map of_nat (offsets_from 8 ?spans)"
    by (simp add: span_offsets_def out offs length_packer_init)
  from bf pre fin so ne tiles show ?thesis
    by (auto simp: out)
qed

text \<open>
  C1: the pack made by \<open>pack_features\<close> of a tile and a list of input features loses
  no feature and duplicates none. Read from the finished buffer at the span offsets handed
  to the quad-trees, the spans hold the payloads of the input features, each as often as
  it came in; no offset occurs twice; and the offsets that the quad-tree lookups of all
  buckets give for the tiles that descend from the packed tile are exactly these offsets.
  Offsets are 32-bit, so the pack has to stay below \<open>2 ^ 32\<close> bytes.
\<close>

theorem pack_features_complete:
  assumes "pack_features env T strings = Inr out"
    and "length (pack_buf out) < 2 ^ 32"
  shows "\<exists>spans.
           map (read_span (pack_buf out)) (span_offsets out) = map Some spans
           \<and> mset (concat spans) = mset (payloads env strings)
           \<and> distinct (span_offsets out)
           \<and> (\<Union>b < length (pack_inputs out). \<Union>L \<in> {L. descends T L}.
                 set (quad_lookup (pack_inputs out ! b) L)) = set (span_offsets out)"
proof -
  from pack_features_layout [OF assms(1)] obtain fbz pre post where
    bf: "bucket_features env T (replicate (unat (kMaxZoomLevel + 1 - tile_z T)) []) strings
           = Inr fbz" and
    pre: "length pre = 8" and
    fin: "pack_buf out = pre @ concat (map encode_span (bucket_spans fbz)) @ post" and
    so: "span_offsets out = map of_nat (offsets_from 8 (bucket_spans fbz))" and
    ne: "\<forall>span \<in> set (bucket_spans fbz). \<forall>p \<in> set span. p \<noteq> []" and
    tl: "concat (map (map qt_tile) (pack_inputs out)) =
           map (\<lambda>run. pf_best_tile (hd run)) (concat (map equal_ranges fbz))"
    by blast
  define inputs where "inputs = pack_inputs out"
  have out: "pack_inputs out = inputs" by (simp add: inputs_def)
  have tiles: "concat (map (map qt_tile) inputs) =
           map (\<lambda>run. pf_best_tile (hd run)) (concat (map equal_ranges fbz))"
    using tl by (simp add: out)
  let ?spans = "bucket_spans fbz"
  let ?S = "concat (map encode_span ?spans)"
  let ?noffs = "offsets_from 8 ?spans"
  have bound: "n < 2 ^ 32 \<and> n \<le> length (pack_buf out)" if "n \<in> set ?noffs" for n
  proof -
    from offsets_from_bounds [OF that] have "n < 8 + length ?S" by simp
    also have "\<dots> \<le> length (pack_buf out)" by (simp add: fin pre)
    finally show ?thesis using assms(2) by simp
  qed
  have rd: "read_span (pack_buf out) (of_nat n) = read_span_bytes (drop n (pack_buf out))"
    if "n \<in> set ?noffs" for n
    using bound [OF that] by (simp add: read_span_def unat_of_nat_32)
  have "map (read_span (pack_buf out)) (span_offsets out) =
        map (\<lambda>n. read_span_bytes (drop n (pack_buf out))) ?noffs"
    by (simp add: so rd)
  also have "\<dots> = map Some ?spans"
    using read_spans_at_offsets [OF ne fin] by (simp add: pre)
  finally have 1: "map (read_span (pack_buf out)) (span_offsets out) = map Some ?spans" .
  from bucket_features_result [OF bf] have
    ms: "mset (map pf_feature (concat fbz)) = mset (payloads env strings)" and
    ds: "\<forall>pf \<in> set (concat fbz). descends T (pf_best_tile pf)"
    by auto
  have 2: "mset (concat ?spans) = mset (payloads env strings)"
    using mset_bucket_spans [of fbz] ms by simp
  have "inj_on (of_nat :: nat \<Rightarrow> 32 word) (set ?noffs)"
  proof (rule inj_onI)
    fix m n assume "m \<in> set ?noffs" "n \<in> set ?noffs"
      and "(of_nat m :: 32 word) = of_nat n"
    then show "m = n"
      using bound [of m] bound [of n] by (metis unat_of_nat_32)
  qed
  then have 3: "distinct (span_offsets out)"
    by (simp add: so distinct_map offsets_from_distinct)
  have 4: "(\<Union>b < length (pack_inputs out). \<Union>L \<in> {L. descends T L}.
                 set (quad_lookup (pack_inputs out ! b) L)) = set (span_offsets out)"
  proof (intro set_eqI iffI)
    fix off
    assume "off \<in> (\<Union>b < length (pack_inputs out). \<Union>L \<in> {L. descends T L}.
                 set (quad_lookup (pack_inputs out ! b) L))"
    then obtain b e where "b < length inputs" "e \<in> set (inputs ! b)" "off = qt_offset e"
      by (auto simp: out quad_lookup_def)
    then show "off \<in> set (span_offsets out)"
      by (auto simp: span_offsets_def out intro!: bexI [of _ "inputs ! b"])
  next
    fix off
    assume "off \<in> set (span_offsets out)"
    then obtain es e where es: "es \<in> set inputs" and e: "e \<in> set es" and o: "off = qt_offset e"
      by (auto simp: span_offsets_def out)
    from es obtain b where b: "b < length inputs" "inputs ! b = es"
      by (auto simp: in_set_conv_nth)
    from es e have "qt_tile e \<in> set (concat (map (map qt_tile) inputs))" by auto
    then obtain features run where
      "features \<in> set fbz" "run \<in> set (equal_ranges features)"
      "qt_tile e = pf_best_tile (hd run)"
      unfolding tiles by auto
    with equal_ranges_hd [of run features] ds have d: "descends T (qt_tile e)"
      by auto
    have "off \<in> set (quad_lookup (inputs ! b) (qt_tile e))"
      using e o b by (auto simp: quad_lookup_def descends_self)
    with b d show "off \<in> (\<Union>b < length (pack_inputs out). \<Union>L \<in> {L. descends T L}.
                 set (quad_lookup (pack_inputs out ! b) L))"
      by (auto simp: out)
  qed
  from 1 2 3 4 show ?thesis by blast
qed

text \<open>
  Three example features: two in the first bucket, one with the whole tile as its best tile
  and one with a tile of the deepest zoom level, and one in the bucket of zoom level 5.
\<close>

lemma example_pack:
  "pack_features example_pack_env (mk_tile 0 0 0) example_strings = Inr example_pack_result"
  by code_simp

lemma example_pack_small: "length (pack_buf example_pack_result) < 2 ^ 32"
  by (simp add: example_pack_result_def)

theorem pack_features_complete_witness:
  "pack_features example_pack_env (mk_tile 0 0 0) example_strings = Inr example_pack_result
   \<and> span_offsets example_pack_result = [8, 42, 76]
   \<and> map (read_span (pack_buf example_pack_result)) (span_offsets example_pack_result) =
       [Some [replicate 32 1], Some [replicate 32 2], Some [replicate 32 3]]
   \<and> payloads example_pack_env example_strings =
       [replicate 32 1, replicate 32 2, replicate 32 3]
   \<and> (\<exists>spans.
         map (read_span (pack_buf example_pack_result)) (span_offsets example_pack_result) =
           map Some spans
         \<and> mset (concat spans) = mset (payloads example_pack_env example_strings)
         \<and> distinct (span_offsets example_pack_result)
         \<and> (\<Union>b < length (pack_inputs example_pack_result).
              \<Union>L \<in> {L. descends (mk_tile 0 0 0) L}.
                set (quad_lookup (pack_inputs example_pack_result ! b) L)) =
             set (span_offsets example_pack_result))"
proof -
  have 1: "span_offsets example_pack_result = [8, 42, 76]"
    by code_simp
  have 2: "map (read_span (pack_buf example_pack_result)) (span_offsets example_pack_result) =
       [Some [replicate 32 1], Some [replicate 32 2], Some [replicate 32 3]]"
    by code_simp
  have 3: "payloads example_pack_env example_strings =
       [replicate 32 1, replicate 32 2, replicate 32 3]"
    by code_simp
  from pack_features_complete [OF example_pack example_pack_small] example_pack 1 2 3
  show ?thesis by blast
qed

text \<open>
  A pack of more than \<open>2 ^ 32\<close> bytes: \<open>many_strings\<close> all land in the first bucket, the
  lines in one span from byte 8 on and the point in a second span that begins at byte
  \<open>33 * many + 9\<close>, beyond the range of a 32-bit offset.
\<close>

lemma bucket_feature_line:
  "bucket_feature example_pack_env (mk_tile 0 0 0) [[]] [1, 0] = Inr [[pf_line]]"
  by code_simp

lemma bucket_feature_point:
  "bucket_feature example_pack_env (mk_tile 0 0 0) [[]] [2, 0] = Inr [[pf_point]]"
  by code_simp

lemma bucket_feature_first:
  assumes "bucket_feature env root [[]] str = Inr [[pf]]" and "0 < length b"
  shows "bucket_feature env root b str = Inr (b[0 := b ! 0 @ [pf]])"
proof -
  from assms(1) obtain f where d: "deserialize_feature env str = Some f"
    by (auto simp: bucket_feature_def split: option.splits)
  let ?z = "unat (max (tile_z root) (fst (zoom_levels f)) - tile_z root)"
  from assms(1) d obtain bt where
    b: "find_best_tile (pe_mk_spec env) (pe_bounding_box env) root f = Inr bt"
    by (auto simp: bucket_feature_def Let_def split: sum.splits)
  from assms(1) d b have z: "?z = 0"
    by (auto simp: bucket_feature_def Let_def split: if_splits)
  from assms(1) d b z obtain qk where
    q: "make_quad_key root bt = Inr qk" and
    p: "pf = \<lparr>pf_quad_key = qk, pf_best_tile = bt, pf_feature = serialize_feature env f\<rparr>"
    by (auto simp: bucket_feature_def Let_def split: sum.splits)
  from d b z q p assms(2) show ?thesis
    by (simp add: bucket_feature_def Let_def)
qed

lemma bucket_features_replicate:
  assumes "bucket_feature env root [[]] str = Inr [[pf]]" and "0 < length b"
  shows "bucket_features env root b (replicate n str @ rest) =
         bucket_features env root (b[0 := b ! 0 @ replicate n pf]) rest"
  using assms(2)
proof (induction n arbitrary: b)
  case 0
  then show ?case by simp
next
  case (Suc n)
  let ?b1 = "b[0 := b ! 0 @ [pf]]"
  have 1: "bucket_feature env root b str = Inr ?b1"
    using assms(1) Suc.prems by (rule bucket_feature_first)
  have l: "0 < length ?b1" using Suc.prems by simp
  have "?b1[0 := ?b1 ! 0 @ replicate n pf] = b[0 := b ! 0 @ replicate (Suc n) pf]"
    using Suc.prems by (simp add: replicate_app_Cons_same)
  with Suc.IH [OF l] 1 show ?case by simp
qed

lemma many_buckets:
  "bucket_features example_pack_env (mk_tile 0 0 0)
     (replicate (unat (kMaxZoomLevel + 1 - tile_z (mk_tile 0 0 0))) []) many_strings =
   Inr ((replicate many pf_line @ [pf_point]) # replicate 20 [])"
proof -
  have "unat (kMaxZoomLevel + 1 - tile_z (mk_tile 0 0 0)) = Suc 20"
    by (simp add: kMaxZoomLevel_def mk_tile_def)
  then have r: "replicate (unat (kMaxZoomLevel + 1 - tile_z (mk_tile 0 0 0))) [] =
        ([] :: packable_feature list) # replicate 20 []"
    by (simp only: replicate_Suc)
  have "bucket_features example_pack_env (mk_tile 0 0 0) ([] # replicate 20 []) many_strings =
        bucket_features example_pack_env (mk_tile 0 0 0)
          (replicate many pf_line # replicate 20 []) [[2, 0]]"
    unfolding many_strings_def
    using bucket_features_replicate [OF bucket_feature_line, of "[] # replicate 20 []" many "[[2, 0]]"]
    by simp
  also have "\<dots> = Inr ((replicate many pf_line @ [pf_point]) # replicate 20 [])"
    using bucket_feature_first [OF bucket_feature_point, of "replicate many pf_line # replicate 20 []"]
    by simp
  finally show ?thesis by (simp only: r)
qed

lemma many_ranges:
  "equal_ranges (replicate many pf_line @ [pf_point]) = [replicate many pf_line, [pf_point]]"
proof -
  have "0 < many" by (simp add: many_def)
  then obtain m where m: "many = Suc m" by (auto dest: gr0_implies_Suc)
  have k: "pf_quad_key pf_line = []" "pf_quad_key pf_point \<noteq> []"
    by (simp_all add: pf_line_def pf_point_def)
  have "sorted (map pf_quad_key (replicate many pf_line @ [pf_point]))"
    by (simp add: sorted_append k)
  then have s: "sort_key pf_quad_key (replicate many pf_line @ [pf_point]) =
        replicate many pf_line @ [pf_point]"
    by (rule sort_key_id_if_sorted)
  have t: "takeWhile (\<lambda>y. pf_quad_key y = pf_quad_key pf_line) (replicate m pf_line @ [pf_point])
        = replicate m pf_line"
    by (subst takeWhile_append2) (auto simp: k)
  have d: "dropWhile (\<lambda>y. pf_quad_key y = pf_quad_key pf_line) (replicate m pf_line @ [pf_point])
        = [pf_point]"
    by (subst dropWhile_append2) (auto simp: k)
  show ?thesis
    unfolding equal_ranges_def s
    by (simp add: m t d)
qed

lemma length_concat_replicate: "length (concat (replicate n r)) = n * length r"
  by (induction n) auto

lemma drop_concat_replicate:
  assumes "k < n" and "j \<le> length r"
  shows "drop (length r * k + j) (concat (replicate n r) @ tail) =
         drop j r @ concat (replicate (n - Suc k) r) @ tail"
  using assms(1)
proof (induction k arbitrary: n)
  case 0
  then obtain m where "n = Suc m" by (auto dest: gr0_implies_Suc)
  then show ?case using assms(2) by simp
next
  case (Suc k)
  then obtain m where n: "n = Suc m" and km: "k < m" by (cases n) auto
  have "length r * Suc k + j = length r + (length r * k + j)" by simp
  then have "drop (length r * Suc k + j) (concat (replicate n r) @ tail) =
        drop (length r * k + j) (concat (replicate m r) @ tail)"
    by (simp add: n del: mult_Suc_right)
  with Suc.IH [OF km] n show ?case by simp
qed

lemma payloads_example_length:
  assumes "p \<in> set (payloads example_pack_env strings)"
  shows "length p = 32"
  using assms
  by (auto simp: payloads_def List.map_filter_def example_pack_env_def)


lemma encode_span_replicate:
  "encode_span (replicate n (replicate 32 b)) = concat (replicate n (32 # replicate 32 b)) @ [0]"
proof -
  have "write_varint 32 = [32]" "write_varint 0 = [0]"
    by (simp_all add: write_varint.simps)
  then show ?thesis by (simp add: encode_span_def)
qed

lemma many_spans:
  "bucket_spans ((replicate many pf_line @ [pf_point]) # replicate 20 []) =
   [replicate many (replicate 32 1), [replicate 32 2]]"
proof -
  have e: "equal_ranges [] = ([] :: packable_feature list list)"
    by (simp add: equal_ranges_def)
  have r: "concat (map (\<lambda>features. map (map pf_feature) (equal_ranges features))
          (replicate 20 ([] :: packable_feature list))) = []"
    by (simp add: e)
  have f: "map (map pf_feature) (equal_ranges (replicate many pf_line @ [pf_point])) =
        [replicate many (replicate 32 1), [replicate 32 2]]"
    unfolding many_ranges by (simp add: pf_line_def pf_point_def)
  show ?thesis
    unfolding bucket_spans_def list.map concat.simps r f by simp
qed

lemma many_wrap: "(of_nat (33 * many + 9) :: 32 word) = 134217737"
proof -
  have n: "33 * many + 9 = (4429185033 :: nat)" by (simp add: many_def)
  have m: "(4429185033 :: nat) mod 4294967296 = 134217737" by simp
  have p: "(2 :: nat) ^ 32 = 4294967296" by simp
  have "(of_nat (33 * many + 9) :: 32 word) = of_nat 134217737"
    by (simp only: word_of_nat_eq_iff take_bit_eq_mod n m p) simp
  then show ?thesis by simp
qed

lemma unat_wrap: "unat (134217737 :: 32 word) = 134217737"
proof -
  have "unat (of_nat 134217737 :: 32 word) = 134217737"
    by (simp add: unat_of_nat)
  then show ?thesis by (simp only: of_nat_numeral)
qed

lemma many_big: "(2 :: nat) ^ 32 \<le> 8 + 33 * many" and many_gt: "4067203 < many"
  by (simp_all add: many_def)

lemma many_pack:
  obtains out pre post where
    "pack_features example_pack_env (mk_tile 0 0 0) many_strings = Inr out"
    and "length pre = 8"
    and "pack_buf out = pre @ concat (replicate many (32 # replicate 32 1)) @ post"
    and "span_offsets out = [8, 134217737]"
proof -
  let ?fbz = "(replicate many pf_line @ [pf_point]) # replicate 20 []"
  have "\<forall>features \<in> set ?fbz. \<forall>pf \<in> set features. 32 \<le> length (pf_feature pf)"
    by (auto simp: pf_line_def pf_point_def)
  from pack_buckets_total [OF this] obtain quad_trees inputs buf where
    pb: "pack_buckets example_pack_env (mk_tile 0 0 0)
       (packer_init (of_nat (length many_strings))) ?fbz = Inr (quad_trees, inputs, buf)"
    by blast
  from pack_features_total [OF many_buckets pb] obtain out where
    p: "pack_features example_pack_env (mk_tile 0 0 0) many_strings = Inr out"
    by blast
  from pack_features_layout [OF p] many_buckets obtain pre post where
    pre: "length pre = 8" and
    buf: "pack_buf out = pre @ concat (map encode_span (bucket_spans ?fbz)) @ post" and
    so: "span_offsets out = map of_nat (offsets_from 8 (bucket_spans ?fbz))"
    by auto
  have l: "length (encode_span (replicate many (replicate 32 (1 :: 8 word)))) = 33 * many + 1"
    by (simp add: encode_span_replicate length_concat_replicate)
  have 1: "pack_buf out = pre @ concat (replicate many (32 # replicate 32 1))
             @ ([0] @ encode_span [replicate 32 2] @ post)"
    unfolding buf many_spans by (simp add: encode_span_replicate)
  have a: "8 + (33 * many + 1) = 33 * many + 9" by simp
  have "span_offsets out = [of_nat 8, of_nat (33 * many + 9)]"
    unfolding so many_spans offsets_from.simps l a by simp
  then have 2: "span_offsets out = [8, 134217737]"
    unfolding many_wrap by simp
  from p pre 1 2 show ?thesis by (rule that)
qed

lemma read_span_bytes_short:
  "read_span_bytes (1 # b # rest) \<noteq> None \<Longrightarrow>
   \<exists>ps. read_span_bytes (1 # b # rest) = Some ([b] # ps)"
  by (subst (asm) read_span_bytes.simps, subst read_span_bytes.simps)
     (auto split: option.splits)

lemma drop_into_first_span:
  "drop 134217729 (concat (replicate many (32 # replicate 32 (1 :: 8 word))) @ post) =
   1 # 1 # 1 # concat (replicate (many - Suc 4067203) (32 # replicate 32 1)) @ post"
proof -
  let ?r = "32 # replicate 32 (1 :: 8 word)"
  have l: "length ?r * 4067203 + 30 = 134217729" by simp
  have d: "drop 30 ?r = [1, 1, 1]" by code_simp
  have "drop (length ?r * 4067203 + 30) (concat (replicate many ?r) @ post) =
        drop 30 ?r @ concat (replicate (many - Suc 4067203) ?r) @ post"
    using many_gt by (rule drop_concat_replicate) simp
  then show ?thesis unfolding l d by simp
qed

lemma read_wrapped_offset:
  assumes "length pre = 8"
    and "buf = pre @ concat (replicate many (32 # replicate 32 1)) @ post"
  shows "read_span buf 134217737 =
         read_span_bytes (1 # 1 # 1 #
           concat (replicate (many - Suc 4067203) (32 # replicate 32 1)) @ post)"
proof -
  have len: "length buf = 8 + 33 * many + length post"
    by (simp add: assms length_concat_replicate)
  have le: "134217737 \<le> length buf"
    using len many_gt by simp
  have "drop 134217737 buf =
        drop 134217729 (concat (replicate many (32 # replicate 32 1)) @ post)"
    by (simp add: assms)
  then show ?thesis
    using le by (simp only: read_span_def unat_wrap drop_into_first_span if_True)
qed


text \<open>
  C1, for a pack of \<open>2 ^ 32\<close> bytes and more: the offset of the second span wraps around to
  134217737, a position inside the first span, and what is read there is not a span of
  input features. The features read back at the span offsets are not the input features.
\<close>

theorem pack_features_offset_wraps:
  "\<exists>out. pack_features example_pack_env (mk_tile 0 0 0) many_strings = Inr out
      \<and> 2 ^ 32 \<le> length (pack_buf out)
      \<and> span_offsets out = [8, 134217737]
      \<and> \<not> (\<exists>spans.
             map (read_span (pack_buf out)) (span_offsets out) = map Some spans
             \<and> mset (concat spans) = mset (payloads example_pack_env many_strings))"
proof -
  let ?r = "32 # replicate 32 (1 :: 8 word)"
  from many_pack obtain out pre post where
    p: "pack_features example_pack_env (mk_tile 0 0 0) many_strings = Inr out" and
    pre: "length pre = 8" and
    buf: "pack_buf out = pre @ concat (replicate many ?r) @ post" and
    so: "span_offsets out = [8, 134217737]"
    by blast
  have "length (pack_buf out) = 8 + 33 * many + length post"
    by (simp add: buf pre length_concat_replicate)
  with many_big have big: "2 ^ 32 \<le> length (pack_buf out)"
    by (simp only: le_add1 le_trans)
  note rs = read_wrapped_offset [OF pre buf]
  have no: "\<not> (\<exists>spans.
             map (read_span (pack_buf out)) (span_offsets out) = map Some spans
             \<and> mset (concat spans) = mset (payloads example_pack_env many_strings))"
  proof
    assume "\<exists>spans.
             map (read_span (pack_buf out)) (span_offsets out) = map Some spans
             \<and> mset (concat spans) = mset (payloads example_pack_env many_strings)"
    then obtain spans where
      m: "map (read_span (pack_buf out)) (span_offsets out) = map Some spans" and
      e: "mset (concat spans) = mset (payloads example_pack_env many_strings)"
      by blast
    from m have "length spans = 2" unfolding so
      by (metis length_map length_Cons list.size(3) numeral_2_eq_2)
    then obtain s0 s1 where sp: "spans = [s0, s1]"
      by (auto simp: length_Suc_conv numeral_2_eq_2)
    from m have r1: "read_span (pack_buf out) 134217737 = Some s1"
      unfolding so sp by (simp only: list.map list.inject)
    from r1 rs read_span_bytes_short [of 1 "1 # concat (replicate (many - Suc 4067203) ?r) @ post"]
    obtain ps where "s1 = [1] # ps"
      by auto
    then have "[1] \<in> set (concat spans)" by (simp add: sp)
    then have "[1] \<in> set (payloads example_pack_env many_strings)"
      using e by (metis set_mset_mset)
    from payloads_example_length [OF this] show False by simp
  qed
  from p big so no show ?thesis by blast
qed
end
